theory Spec2Isabelle
  imports Main "HOL-Library.Multiset"
begin

section \<open>Strings\<close>

text \<open>
  A Python \<open>str\<close> is a sequence of Unicode code points, and \<open>len\<close> and slicing count
  code points. A string is therefore modelled as a list of code points, each a natural
  number; \<open>u\<close> writes an ASCII literal.
\<close>

type_synonym pystr = "nat list"

definition u :: "string \<Rightarrow> pystr" where
  "u s = map of_char s"

text \<open>
  The characters for which \<open>\s\<close> of the \<open>re\<close> module (on a \<open>str\<close> pattern) matches and
  which \<open>str.strip()\<close> removes: CPython decides both with one table of white space code
  points (tab to carriage return, the four separators 0x1C to 0x1F, space, NEL, no-break
  space and the Unicode space separators).
\<close>

definition is_space :: "nat \<Rightarrow> bool" where
  "is_space c \<longleftrightarrow>
     (9 \<le> c \<and> c \<le> 13) \<or> (28 \<le> c \<and> c \<le> 32) \<or> c = 133 \<or> c = 160 \<or> c = 5760 \<or>
     (8192 \<le> c \<and> c \<le> 8202) \<or> c = 8232 \<or> c = 8233 \<or> c = 8239 \<or> c = 8287 \<or>
     c = 12288"

text \<open>\<open>str.strip()\<close>: white space removed at both ends.\<close>

definition strip :: "pystr \<Rightarrow> pystr" where
  "strip s = rev (dropWhile is_space (rev (dropWhile is_space s)))"

section \<open>sanitize_filename\<close>

text \<open>
  The character class \<open>[\\/:*?"<>|]\<close> of the first substitution: backslash, slash, colon,
  asterisk, question mark, double quote, less-than, greater-than, vertical bar.
\<close>

definition invalid_chars :: "nat list" where
  "invalid_chars = [92, 47, 58, 42, 63, 34, 60, 62, 124]"

text \<open>\<open>re.sub(r'[\\/:*?"<>|]', '', filename)\<close>: every such character is deleted.\<close>

definition remove_invalid :: "pystr \<Rightarrow> pystr" where
  "remove_invalid s = filter (\<lambda>c. c \<notin> set invalid_chars) s"

text \<open>
  \<open>re.sub(r'\s+', ' ', s)\<close>: every maximal run of white space becomes one space
  (code point 32).
\<close>

function collapse_ws :: "pystr \<Rightarrow> pystr" where
  "collapse_ws [] = []"
| "collapse_ws (c # cs) =
     (if is_space c then 32 # collapse_ws (dropWhile is_space cs) else c # collapse_ws cs)"
  by pat_completeness auto
termination
  by (relation "measure length") (auto simp: length_dropWhile_le less_Suc_eq_le)

definition sanitize_filename :: "pystr \<Rightarrow> pystr" where
  "sanitize_filename filename =
     (let sanitized = remove_invalid filename;
          sanitized = strip (collapse_ws sanitized)
      in take 255 sanitized)"


section \<open>Data classes\<close>

record VideoInfo =
  title :: pystr
  url :: pystr
  playlist_index :: nat
  upload_info :: "pystr option"
  download_index :: "nat option"

record PlaylistInfo =
  pl_title :: pystr
  channel :: pystr
  pl_url :: pystr
  total_videos :: nat

record DownloadResult =
  success :: bool
  skipped :: bool
  dr_title :: pystr
  error :: "pystr option"

text \<open>
  The option dictionary shared by \<open>download_playlist\<close> and \<open>download_multiple_playlists\<close>,
  every recognised key with a field. \<open>max_videos\<close> is \<open>None\<close> or an integer.
\<close>

record config =
  max_retries :: int
  delay_between_downloads :: int
  continue_on_error :: bool
  headless :: bool
  max_videos :: "int option"
  create_playlist_folder :: bool
  sort_order :: string
  delay_between_playlists :: int
  continue_on_playlist_error :: bool

section \<open>The scroll loop of extract_playlist_urls\<close>

text \<open>
  The four local variables of the loop. The browser is outside the program: the loop is
  fed the number of rendered entries it counts after each scroll, \<open>counts i\<close> being the
  count seen at scroll number \<open>i\<close> (from 0). The pauses and the alternate scroll
  command of every fifth pass change none of the four variables.
\<close>

record scroll_state =
  previous_count :: nat
  current_count :: nat
  scroll_attempts :: nat
  no_change_count :: nat

definition scroll_init :: scroll_state where
  "scroll_init = \<lparr>previous_count = 0, current_count = 0, scroll_attempts = 0, no_change_count = 0\<rparr>"

definition max_scroll_attempts :: nat where
  "max_scroll_attempts = 100"

definition max_no_change_attempts :: nat where
  "max_no_change_attempts = 10"

text \<open>One pass through the loop body, up to the test of the video limit.\<close>

definition scroll_step :: "(nat \<Rightarrow> nat) \<Rightarrow> scroll_state \<Rightarrow> scroll_state" where
  "scroll_step counts st =
     (let previous = current_count st;
          current = counts (scroll_attempts st);
          attempts = scroll_attempts st + 1;
          no_change = (if current = previous then no_change_count st + 1 else 0)
      in \<lparr>previous_count = previous, current_count = current,
          scroll_attempts = attempts, no_change_count = no_change\<rparr>)"

text \<open>
  \<open>if max_videos and current_count >= max_videos: break\<close>. \<open>None\<close> and 0 are both
  false in Python, so neither sets a limit.
\<close>

definition limit_reached :: "int option \<Rightarrow> scroll_state \<Rightarrow> bool" where
  "limit_reached mv st =
     (case mv of None \<Rightarrow> False | Some m \<Rightarrow> m \<noteq> 0 \<and> int (current_count st) \<ge> m)"

text \<open>
  The \<open>while\<close> loop, with the two caps as parameters (the source binds them to 100 and
  10 just before the loop).
\<close>

function scroll_loop ::
  "nat \<Rightarrow> nat \<Rightarrow> int option \<Rightarrow> (nat \<Rightarrow> nat) \<Rightarrow> scroll_state \<Rightarrow> scroll_state" where
  "scroll_loop cap ncap mv counts st =
     (if scroll_attempts st < cap \<and> no_change_count st < ncap then
        (let st' = scroll_step counts st
         in if limit_reached mv st' then st' else scroll_loop cap ncap mv counts st')
      else st)"
  by pat_completeness auto
termination
  by (relation "measure (\<lambda>(cap, ncap, mv, counts, st). cap - scroll_attempts st)")
     (auto simp: scroll_step_def Let_def)

declare scroll_loop.simps [simp del]

definition discover :: "int option \<Rightarrow> (nat \<Rightarrow> nat) \<Rightarrow> scroll_state" where
  "discover mv counts =
     scroll_loop max_scroll_attempts max_no_change_attempts mv counts scroll_init"

section \<open>Reading the rendered entries\<close>

text \<open>
  What the browser shows for one playlist entry: \<open>link\<close> is the \<open>a#video-title\<close> element
  as the pair of its \<open>href\<close> attribute and its text (\<open>None\<close> when looking it up raises),
  \<open>upload_text\<close> the text of the first metadata span that matches the recency pattern
  (\<open>None\<close> when there is none or the lookup raises).
\<close>

record element =
  link :: "(pystr option \<times> pystr) option"
  upload_text :: "pystr option"

fun starts_with :: "pystr \<Rightarrow> pystr \<Rightarrow> bool" where
  "starts_with [] s = True"
| "starts_with (p # ps) [] = False"
| "starts_with (p # ps) (c # cs) = (p = c \<and> starts_with ps cs)"

text \<open>\<open>sub in s\<close> for strings.\<close>

fun contains :: "pystr \<Rightarrow> pystr \<Rightarrow> bool" where
  "contains sub [] = (sub = [])"
| "contains sub (c # cs) = (starts_with sub (c # cs) \<or> contains sub cs)"

text \<open>
  The body of the \<open>for index, element in enumerate(video_elements)\<close> loop: \<open>None\<close> is
  \<open>continue\<close>, taken when the link is missing, when \<open>href\<close> is empty or is no watch
  URL. 38 is the ampersand.
\<close>

definition extract_video :: "nat \<Rightarrow> element \<Rightarrow> VideoInfo option" where
  "extract_video index e =
     (case link e of
        None \<Rightarrow> None
      | Some (None, text) \<Rightarrow> None
      | Some (Some href, text) \<Rightarrow>
          if href = [] \<or> \<not> contains (u ''/watch?v='') href then None
          else Some \<lparr>title = strip text, url = takeWhile (\<lambda>c. c \<noteq> 38) href,
                     playlist_index = index + 1, upload_info = upload_text e,
                     download_index = None\<rparr>)"

definition extract_videos :: "element list \<Rightarrow> VideoInfo list" where
  "extract_videos elements =
     List.map_filter (\<lambda>(index, e). extract_video index e) (enumerate 0 elements)"

text \<open>
  The page as the browser presents it: \<open>load_error\<close> is the exception raised while the
  driver starts, loads the URL or waits for the first entry (once the page is loaded,
  the browser calls are taken to return); \<open>scroll_counts\<close> feeds the scroll loop;
  \<open>rendered n\<close> is the list of entries found after the loop has ended with \<open>n\<close>
  scrolls; \<open>find_text sel\<close> is the text of the first element matching a CSS selector
  (\<open>None\<close> when \<open>find_element\<close> raises); \<open>list_param\<close> is the first value of the \<open>list\<close>
  query parameter of \<open>current_url\<close>.
\<close>

record page =
  load_error :: "pystr option"
  scroll_counts :: "nat \<Rightarrow> nat"
  rendered :: "nat \<Rightarrow> element list"
  find_text :: "string \<Rightarrow> pystr option"
  current_url :: pystr
  list_param :: "pystr option"

definition title_selectors :: "string list" where
  "title_selectors =
     [''h1.style-scope.ytd-playlist-header-renderer'',
      ''h1.ytd-playlist-header-renderer'',
      ''yt-formatted-string.style-scope.ytd-playlist-header-renderer'',
      ''h1 yt-formatted-string'',
      ''ytd-playlist-header-renderer #title'',
      ''yt-formatted-string.title'',
      ''h1'',
      ''.title'',
      ''yt-formatted-string#title'']"

definition channel_selectors :: "string list" where
  "channel_selectors =
     [''ytd-video-owner-renderer a.yt-simple-endpoint yt-formatted-string'',
      ''ytd-channel-name a yt-formatted-string'',
      ''.ytd-channel-name a'',
      ''ytd-playlist-header-renderer .owner-text a'',
      ''.owner-text a'']"

text \<open>
  \<open>str.lower()\<close> on the letters A to Z. The two tests below look for the words
  \<open>youtube\<close> and \<open>subscribe\<close>; the only other code point whose lower case holds one
  of their letters is U+0130, which becomes an \<open>i\<close> followed by a combining dot, so
  it completes neither word and the tests come out as in Python.
\<close>

definition lower :: "pystr \<Rightarrow> pystr" where
  "lower s = map (\<lambda>c. if 65 \<le> c \<and> c \<le> 90 then c + 32 else c) s"

fun find_title :: "(string \<Rightarrow> pystr option) \<Rightarrow> string list \<Rightarrow> pystr option" where
  "find_title lookup [] = None"
| "find_title lookup (selector # rest) =
     (case lookup selector of
        None \<Rightarrow> find_title lookup rest
      | Some t \<Rightarrow>
          (let text = strip t
           in if text \<noteq> [] \<and> length text > 3 \<and> length text < 200 \<and>
                 \<not> contains (u ''youtube'') (lower text) \<and>
                 \<not> contains (u ''subscribe'') (lower text)
              then Some text else find_title lookup rest))"

fun find_channel :: "(string \<Rightarrow> pystr option) \<Rightarrow> string list \<Rightarrow> pystr option" where
  "find_channel lookup [] = None"
| "find_channel lookup (selector # rest) =
     (case lookup selector of
        None \<Rightarrow> find_channel lookup rest
      | Some t \<Rightarrow> (if strip t \<noteq> [] then Some (strip t) else find_channel lookup rest))"

definition extract_playlist_metadata :: "page \<Rightarrow> PlaylistInfo" where
  "extract_playlist_metadata p =
     (let title = (case find_title (find_text p) title_selectors of
                     Some t \<Rightarrow> t
                   | None \<Rightarrow> (case list_param p of
                                 Some l \<Rightarrow> u ''Playlist_'' @ l
                               | None \<Rightarrow> u ''Unknown Playlist''));
          channel = (case find_channel (find_text p) channel_selectors of
                       Some c \<Rightarrow> c
                     | None \<Rightarrow> u ''Unknown'')
      in \<lparr>pl_title = title, channel = channel, pl_url = current_url p, total_videos = 0\<rparr>)"

text \<open>
  \<open>extract_playlist_urls\<close>: \<open>Inl\<close> is the exception it re-raises, \<open>Inr\<close> the dictionary
  with the keys \<open>playlist_info\<close> and \<open>videos\<close>.
\<close>

definition extract_playlist_urls ::
  "page \<Rightarrow> int option \<Rightarrow> pystr + (PlaylistInfo \<times> VideoInfo list)" where
  "extract_playlist_urls p mv =
     (case load_error p of
        Some e \<Rightarrow> Inl e
      | None \<Rightarrow>
          (let st = discover mv (scroll_counts p);
               video_data = extract_videos (rendered p (scroll_attempts st));
               playlist_info = extract_playlist_metadata p
           in Inr (playlist_info, video_data)))"

section \<open>Directory listings and Path.glob\<close>

text \<open>
  \<open>output_dir.glob(pattern)\<close> lists the entries of the directory whose names match a
  shell pattern. The pattern here is one path component (the sanitised title holds no
  slash), so each entry name is matched against it by the \<open>fnmatch\<close> rules, taken here
  on a case-sensitive file system: \<open>*\<close> any run of characters, \<open>?\<close> one character,
  \<open>[...]\<close> one character of a set, \<open>[!...]\<close> one character outside it, anything else
  itself. A set is kept as a list of ranges, a single character \<open>c\<close> as \<open>(c, c)\<close>.
\<close>

datatype glob_token = Lit nat | AnyChar | Star | CharSet bool "(nat \<times> nat) list"

text \<open>
  After an opening bracket, the index of the bracket that closes the set: a leading
  \<open>!\<close> (33) and then a leading \<open>]\<close> (93) belong to the set. \<open>None\<close> when no bracket
  closes it; the opening bracket is then an ordinary character.
\<close>

definition bracket_end :: "pystr \<Rightarrow> nat option" where
  "bracket_end rest =
     (let j = (if 0 < length rest \<and> rest ! 0 = 33 then 1 else 0);
          j = (if j < length rest \<and> rest ! j = 93 then j + 1 else j);
          j = j + length (takeWhile (\<lambda>c. c \<noteq> 93) (drop j rest))
      in if j \<ge> length rest then None else Some j)"

text \<open>
  A set that holds a hyphen (45) is cut into chunks at the hyphens that stand for a
  range: not the first character of the set, and not within two characters after the
  previous range hyphen. The last character of a chunk and the first of the next are
  the two ends of a range.
\<close>

fun split_chunks :: "nat \<Rightarrow> pystr \<Rightarrow> pystr \<Rightarrow> pystr list" where
  "split_chunks skip acc [] = [rev acc]"
| "split_chunks skip acc (c # cs) =
     (if skip = 0 \<and> c = 45 then rev acc # split_chunks 2 [] cs
      else split_chunks (skip - 1) (c # acc) cs)"

text \<open>An empty last chunk means the set ends in a hyphen, which then stands for itself.\<close>

definition close_chunks :: "pystr list \<Rightarrow> pystr list" where
  "close_chunks chunks =
     (if 2 \<le> length chunks \<and> last chunks = []
      then butlast (butlast chunks) @ [last (butlast chunks) @ [45]]
      else chunks)"

text \<open>
  A range whose first end lies above its second is dropped, its two neighbours joined;
  the chunks are visited from the last to the first.
\<close>

fun merge_empty_ranges :: "pystr list \<Rightarrow> pystr list" where
  "merge_empty_ranges [] = []"
| "merge_empty_ranges [a] = [a]"
| "merge_empty_ranges (a # b # rest) =
     (case merge_empty_ranges (b # rest) of
        [] \<Rightarrow> [a]
      | b' # rest' \<Rightarrow>
          (if a \<noteq> [] \<and> b' \<noteq> [] \<and> last a > hd b'
           then (butlast a @ tl b') # rest' else a # b' # rest'))"

fun chunk_items :: "pystr list \<Rightarrow> (nat \<times> nat) list" where
  "chunk_items [] = []"
| "chunk_items [a] = map (\<lambda>c. (c, c)) a"
| "chunk_items (a # b # rest) =
     (if a \<noteq> [] \<and> b \<noteq> []
      then map (\<lambda>c. (c, c)) (butlast a) @ [(last a, hd b)] @ chunk_items (tl b # rest)
      else map (\<lambda>c. (c, c)) a @ chunk_items (b # rest))"

text \<open>
  The set between the brackets. Whether it is negated is read from its first character
  after the empty ranges are gone.
\<close>

definition char_class :: "pystr \<Rightarrow> glob_token" where
  "char_class stuff =
     (let chunks =
            (if 45 \<notin> set stuff then [stuff]
             else merge_empty_ranges (close_chunks
                    (split_chunks (if stuff \<noteq> [] \<and> hd stuff = 33 then 2 else 1) [] stuff)))
      in if chunks = [[]] then CharSet False []
         else if chunks = [[33]] then AnyChar
         else if chunks \<noteq> [] \<and> hd chunks \<noteq> [] \<and> hd (hd chunks) = 33
              then CharSet True (chunk_items (tl (hd chunks) # tl chunks))
              else CharSet False (chunk_items chunks))"

text \<open>42 is the asterisk, 63 the question mark, 91 the opening bracket.\<close>

function glob_tokens :: "pystr \<Rightarrow> glob_token list" where
  "glob_tokens [] = []"
| "glob_tokens (c # cs) =
     (if c = 42 then Star # glob_tokens (dropWhile (\<lambda>d. d = 42) cs)
      else if c = 63 then AnyChar # glob_tokens cs
      else if c = 91 then
        (case bracket_end cs of
           None \<Rightarrow> Lit 91 # glob_tokens cs
         | Some j \<Rightarrow> char_class (take j cs) # glob_tokens (drop (Suc j) cs))
      else Lit c # glob_tokens cs)"
  by pat_completeness auto
termination
  by (relation "measure length") (auto simp: length_dropWhile_le less_Suc_eq_le)

definition in_class :: "(nat \<times> nat) list \<Rightarrow> nat \<Rightarrow> bool" where
  "in_class items c = list_ex (\<lambda>(lo, hi). lo \<le> c \<and> c \<le> hi) items"

fun glob_match :: "glob_token list \<Rightarrow> pystr \<Rightarrow> bool" where
  "glob_match [] s = (s = [])"
| "glob_match (Star # ts) [] = glob_match ts []"
| "glob_match (Star # ts) (c # cs) = (glob_match ts (c # cs) \<or> glob_match (Star # ts) cs)"
| "glob_match (Lit x # ts) [] = False"
| "glob_match (Lit x # ts) (c # cs) = (x = c \<and> glob_match ts cs)"
| "glob_match (AnyChar # ts) [] = False"
| "glob_match (AnyChar # ts) (c # cs) = glob_match ts cs"
| "glob_match (CharSet neg items # ts) [] = False"
| "glob_match (CharSet neg items # ts) (c # cs) = (in_class items c \<noteq> neg \<and> glob_match ts cs)"

definition fnmatch :: "pystr \<Rightarrow> pystr \<Rightarrow> bool" where
  "fnmatch name pat = glob_match (glob_tokens pat) name"

definition glob :: "pystr list \<Rightarrow> pystr \<Rightarrow> pystr list" where
  "glob entries pat = filter (\<lambda>name. fnmatch name pat) entries"

text \<open>
  \<open>base / name\<close> for a name without a slash (47): an empty name and \<open>.\<close> leave the path
  as it is.
\<close>

definition path_join :: "pystr \<Rightarrow> pystr \<Rightarrow> pystr" where
  "path_join base name = (if name = [] \<or> name = u ''.'' then base else base @ [47] @ name)"

section \<open>The world outside the program\<close>

text \<open>The object written to \<open>playlist_info.json\<close>.\<close>

record metadata_file =
  mf_title :: pystr
  mf_channel :: pystr
  mf_url :: pystr
  mf_total_videos :: nat
  mf_extracted_at :: pystr
  mf_videos :: "(pystr \<times> pystr \<times> nat \<times> pystr option) list"
  mf_sort_order :: string

text \<open>
  The file system as far as the program reads and writes it: \<open>fs dir\<close> is the list of
  entry names of a directory, \<open>json_files\<close> the metadata files by path, and
  \<open>ydl_calls\<close> the log of the calls of the download capability (URL and output
  template). Operating-system failures (a full disk, a missing permission) are not part
  of it.
\<close>

record world =
  fs :: "pystr \<Rightarrow> pystr list"
  json_files :: "pystr \<Rightarrow> metadata_file option"
  ydl_calls :: "(pystr \<times> pystr) list"

text \<open>
  The download capability, \<open>YoutubeDL(opts).download([url])\<close>: given the URL, the output
  template and the entries of the output directory, it leaves the directory with new
  entries and either returns or raises with a message.
\<close>

type_synonym downloader = "pystr \<Rightarrow> pystr \<Rightarrow> pystr list \<Rightarrow> pystr list \<times> pystr option"

record env =
  download_folder :: pystr
  browse :: "pystr \<Rightarrow> page"
  ydl :: downloader
  now :: pystr

definition add_entry :: "pystr \<Rightarrow> pystr \<Rightarrow> world \<Rightarrow> world" where
  "add_entry dir name w =
     (if name \<in> set (fs w dir) then w else w\<lparr>fs := (fs w)(dir := fs w dir @ [name])\<rparr>)"

text \<open>\<open>(parent / name).mkdir(exist_ok=True)\<close>.\<close>

definition mkdir :: "pystr \<Rightarrow> pystr \<Rightarrow> world \<Rightarrow> world" where
  "mkdir parent name w = (if name = [] \<or> name = u ''.'' then w else add_entry parent name w)"

section \<open>download_video_with_ytdlp\<close>

text \<open>
  The function never raises: every exception of its body becomes a result with
  \<open>success = False\<close>. Sanitising and globbing raise nothing, so the only exception is the
  one of the download capability.
\<close>

definition download_video_with_ytdlp ::
  "downloader \<Rightarrow> pystr \<Rightarrow> pystr \<Rightarrow> pystr \<Rightarrow> world \<Rightarrow> DownloadResult \<times> world" where
  "download_video_with_ytdlp dl video_url custom_title output_dir w =
     (let sanitized_title = sanitize_filename custom_title;
          output_path = path_join output_dir (sanitized_title @ u ''.%(ext)s'');
          existing_files = glob (fs w output_dir) (sanitized_title @ u ''.*'')
      in if existing_files \<noteq> [] then
           (\<lparr>success = True, skipped = True, dr_title = sanitized_title, error = None\<rparr>, w)
         else
           (let (entries, raised) = dl video_url output_path (fs w output_dir);
                w' = w\<lparr>fs := (fs w)(output_dir := entries),
                       ydl_calls := ydl_calls w @ [(video_url, output_path)]\<rparr>
            in case raised of
                 None \<Rightarrow>
                   (\<lparr>success = True, skipped = False, dr_title = sanitized_title,
                     error = None\<rparr>, w')
               | Some error_msg \<Rightarrow>
                   (\<lparr>success = False, skipped = False, dr_title = custom_title,
                     error = Some error_msg\<rparr>, w')))"

section \<open>download_playlist\<close>

text \<open>
  Any \<open>sort_order\<close> other than \<open>upload\<close> and \<open>reverse\<close> keeps the order.
\<close>

definition sort_videos :: "string \<Rightarrow> 'a list \<Rightarrow> 'a list" where
  "sort_videos order videos =
     (if order = ''upload'' then rev videos
      else if order = ''reverse'' then rev videos
      else videos)"

text \<open>
  \<open>for i, video in enumerate(videos): video.download_index = i + 1\<close>. The entries of the
  list are distinct objects, each built by its own constructor call during extraction.
\<close>

definition assign_download_index :: "VideoInfo list \<Rightarrow> VideoInfo list" where
  "assign_download_index videos =
     map (\<lambda>(i, video). video\<lparr>download_index := Some (i + 1)\<rparr>) (enumerate 0 videos)"

definition metadata_of :: "PlaylistInfo \<Rightarrow> pystr \<Rightarrow> VideoInfo list \<Rightarrow> pystr \<Rightarrow> string \<Rightarrow> metadata_file" where
  "metadata_of playlist_info playlist_url videos extracted_at order =
     \<lparr>mf_title = pl_title playlist_info, mf_channel = channel playlist_info,
      mf_url = playlist_url, mf_total_videos = length videos, mf_extracted_at = extracted_at,
      mf_videos = map (\<lambda>v. (title v, url v, playlist_index v, upload_info v)) videos,
      mf_sort_order = order\<rparr>"

text \<open>
  The playlist folder: created under the download folder and given its metadata file
  when \<open>create_playlist_folder\<close> is set, the download folder itself otherwise.
\<close>

definition prepare_folder ::
  "env \<Rightarrow> config \<Rightarrow> pystr \<Rightarrow> PlaylistInfo \<Rightarrow> VideoInfo list \<Rightarrow> world \<Rightarrow> pystr \<times> world" where
  "prepare_folder e cfg playlist_url playlist_info videos w =
     (if create_playlist_folder cfg then
        (let sanitized_name = sanitize_filename (pl_title playlist_info);
             playlist_folder = path_join (download_folder e) sanitized_name;
             w1 = mkdir (download_folder e) sanitized_name w;
             metadata = metadata_of playlist_info playlist_url videos (now e) (sort_order cfg);
             metadata_path = path_join playlist_folder (u ''playlist_info.json'');
             w2 = add_entry playlist_folder (u ''playlist_info.json'') w1
         in (playlist_folder, w2\<lparr>json_files := (json_files w2)(metadata_path := Some metadata)\<rparr>))
      else (download_folder e, w))"

text \<open>
  The download loop: its three counters, the world, and \<open>stopped\<close>, set when the loop is
  left by \<open>break\<close>. The pauses between downloads change nothing here.
\<close>

record loop_state =
  success_count :: nat
  fail_count :: nat
  skipped_count :: nat
  stopped :: bool
  lw :: world

definition loop_init :: "world \<Rightarrow> loop_state" where
  "loop_init w = \<lparr>success_count = 0, fail_count = 0, skipped_count = 0, stopped = False, lw = w\<rparr>"

fun download_loop ::
  "downloader \<Rightarrow> config \<Rightarrow> pystr \<Rightarrow> VideoInfo list \<Rightarrow> loop_state \<Rightarrow> loop_state" where
  "download_loop dl cfg playlist_folder [] st = st"
| "download_loop dl cfg playlist_folder (video # videos) st =
     (let (result, w') = download_video_with_ytdlp dl (url video) (title video) playlist_folder (lw st)
      in if success result then
           (if skipped result
            then download_loop dl cfg playlist_folder videos
                   (st\<lparr>skipped_count := skipped_count st + 1, lw := w'\<rparr>)
            else download_loop dl cfg playlist_folder videos
                   (st\<lparr>success_count := success_count st + 1, lw := w'\<rparr>))
         else
           (if \<not> continue_on_error cfg
            then st\<lparr>fail_count := fail_count st + 1, lw := w', stopped := True\<rparr>
            else download_loop dl cfg playlist_folder videos
                   (st\<lparr>fail_count := fail_count st + 1, lw := w'\<rparr>)))"

text \<open>The dictionary \<open>download_playlist\<close> returns.\<close>

record summary =
  r_playlist_info :: PlaylistInfo
  r_success_count :: nat
  r_skipped_count :: nat
  r_fail_count :: nat
  r_total_videos :: nat
  r_playlist_folder :: pystr
  r_sort_order :: string

definition summary_of :: "PlaylistInfo \<Rightarrow> loop_state \<Rightarrow> VideoInfo list \<Rightarrow> pystr \<Rightarrow> string \<Rightarrow> summary" where
  "summary_of playlist_info st videos playlist_folder order =
     \<lparr>r_playlist_info = playlist_info, r_success_count = success_count st,
      r_skipped_count = skipped_count st, r_fail_count = fail_count st,
      r_total_videos = length videos, r_playlist_folder = playlist_folder,
      r_sort_order = order\<rparr>"

text \<open>
  \<open>download_playlist\<close> returns \<open>None\<close> when extraction raises (the \<open>except\<close> clause around
  its whole body) and when no video was found; it raises nothing itself. The final
  clean-up removes files of the temporary directory only, which is no part of the
  world here.
\<close>

definition download_playlist :: "env \<Rightarrow> config \<Rightarrow> pystr \<Rightarrow> world \<Rightarrow> summary option \<times> world" where
  "download_playlist e cfg playlist_url w =
     (case extract_playlist_urls (browse e playlist_url) (max_videos cfg) of
        Inl err \<Rightarrow> (None, w)
      | Inr (playlist_info, found) \<Rightarrow>
          if found = [] then (None, w)
          else
            (let videos = assign_download_index (sort_videos (sort_order cfg) found);
                 (playlist_folder, w1) = prepare_folder e cfg playlist_url playlist_info videos w;
                 st = download_loop (ydl e) cfg playlist_folder videos (loop_init w1)
             in (Some (summary_of playlist_info st videos playlist_folder (sort_order cfg)), lw st)))"

section \<open>download_multiple_playlists\<close>

text \<open>An entry of the \<open>results\<close> list: the dictionary of a playlist that returned a summary, or the one of a playlist whose run raised.\<close>

datatype playlist_result =
  PlaylistDone pystr PlaylistInfo nat nat nat nat pystr
| PlaylistError pystr pystr

fun is_success :: "playlist_result \<Rightarrow> bool" where
  "is_success (PlaylistDone _ _ _ _ _ _ _) = True"
| "is_success (PlaylistError _ _) = False"

record batch_state =
  results :: "playlist_result list"
  total_success :: nat
  total_skipped :: nat
  total_failed :: nat
  total_playlists_failed :: nat
  bw :: world

definition batch_init :: "world \<Rightarrow> batch_state" where
  "batch_init w = \<lparr>results = [], total_success = 0, total_skipped = 0, total_failed = 0,
                    total_playlists_failed = 0, bw = w\<rparr>"

text \<open>
  The loop over the URLs, for any playlist run \<open>run\<close>: \<open>Inr (Some result)\<close> is a returned
  summary, \<open>Inr None\<close> a returned \<open>None\<close>, \<open>Inl msg\<close> a raised exception.
\<close>

fun batch_loop ::
  "(pystr \<Rightarrow> world \<Rightarrow> (pystr + summary option) \<times> world) \<Rightarrow> config \<Rightarrow> pystr list \<Rightarrow>
   batch_state \<Rightarrow> batch_state" where
  "batch_loop run cfg [] st = st"
| "batch_loop run cfg (playlist_url # rest) st =
     (case run playlist_url (bw st) of
        (Inr (Some result), w') \<Rightarrow>
          batch_loop run cfg rest
            (st\<lparr>results := results st @
                   [PlaylistDone playlist_url (r_playlist_info result) (r_success_count result)
                      (r_skipped_count result) (r_fail_count result) (r_total_videos result)
                      (r_playlist_folder result)],
                 total_success := total_success st + r_success_count result,
                 total_skipped := total_skipped st + r_skipped_count result,
                 total_failed := total_failed st + r_fail_count result,
                 bw := w'\<rparr>)
      | (Inr None, w') \<Rightarrow> batch_loop run cfg rest (st\<lparr>bw := w'\<rparr>)
      | (Inl msg, w') \<Rightarrow>
          (let st' = st\<lparr>total_playlists_failed := total_playlists_failed st + 1,
                         results := results st @ [PlaylistError playlist_url msg],
                         bw := w'\<rparr>
           in if \<not> continue_on_playlist_error cfg then st'
              else batch_loop run cfg rest st'))"

record batch_summary =
  total_playlists :: nat
  successful_playlists :: nat
  failed_playlists :: nat
  total_videos_downloaded :: nat
  total_videos_skipped :: nat
  total_videos_failed :: nat
  b_results :: "playlist_result list"

definition batch_summary_of :: "pystr list \<Rightarrow> batch_state \<Rightarrow> batch_summary" where
  "batch_summary_of playlist_urls st =
     \<lparr>total_playlists = length playlist_urls,
      successful_playlists = length (filter is_success (results st)),
      failed_playlists = total_playlists_failed st,
      total_videos_downloaded = total_success st,
      total_videos_skipped = total_skipped st,
      total_videos_failed = total_failed st,
      b_results = results st\<rparr>"

text \<open>The playlist run the batch calls: \<open>download_playlist\<close>, which returns and never raises.\<close>

definition run_playlist :: "env \<Rightarrow> config \<Rightarrow> pystr \<Rightarrow> world \<Rightarrow> (pystr + summary option) \<times> world" where
  "run_playlist e cfg playlist_url w =
     (let (result, w') = download_playlist e cfg playlist_url w in (Inr result, w'))"

definition download_multiple_playlists ::
  "env \<Rightarrow> config \<Rightarrow> pystr list \<Rightarrow> world \<Rightarrow> batch_summary \<times> world" where
  "download_multiple_playlists e cfg playlist_urls w =
     (let st = batch_loop (run_playlist e cfg) cfg playlist_urls (batch_init w)
      in (batch_summary_of playlist_urls st, bw st))"

section \<open>Auxiliary notions\<close>

text \<open>
  A string is tidy when it holds no invalid character and every white space character
  in it is a single space followed by something that is no white space.
\<close>

fun tidy :: "pystr \<Rightarrow> bool" where
  "tidy [] = True"
| "tidy (c # cs) =
     (c \<notin> set invalid_chars \<and>
      (is_space c \<longrightarrow> c = 32 \<and> (case cs of [] \<Rightarrow> True | d # _ \<Rightarrow> \<not> is_space d)) \<and>
      tidy cs)"

text \<open>The count the loop holds before scroll number \<open>i\<close>: 0 at the start, the count of the scroll before otherwise.\<close>

definition prev_count :: "(nat \<Rightarrow> nat) \<Rightarrow> nat \<Rightarrow> nat" where
  "prev_count counts i = (if i = 0 then 0 else counts (i - 1))"


text \<open>
  The spec's "name (ignoring extension)" of a directory entry, read as the stem of
  \<open>pathlib\<close>: the name up to its last dot (46), unless that dot is the first or the last
  character of the name.
\<close>

definition name_ignoring_extension :: "pystr \<Rightarrow> pystr" where
  "name_ignoring_extension name =
     (case dropWhile (\<lambda>c. c \<noteq> 46) (rev name) of
        [] \<Rightarrow> name
      | dot # before \<Rightarrow>
          if before = [] \<or> takeWhile (\<lambda>c. c \<noteq> 46) (rev name) = [] then name
          else rev before)"


text \<open>The number of videos the download loop has dealt with: the sum of its three counters.\<close>

definition attempts :: "loop_state \<Rightarrow> nat" where
  "attempts st = success_count st + skipped_count st + fail_count st"


text \<open>The \<open>total_videos\<close> field of the playlist metadata a batch result carries, if it carries one.\<close>

fun entry_info_count :: "playlist_result \<Rightarrow> nat option" where
  "entry_info_count (PlaylistDone _ info _ _ _ _ _) = Some (total_videos info)"
| "entry_info_count (PlaylistError _ _) = None"


section \<open>Example inputs\<close>

text \<open>Count sequences: one that falls by one at every scroll, one that shows 100 entries at once, one that stays at 7, one that grows by 20.\<close>

definition falling_counts :: "nat \<Rightarrow> nat" where
  "falling_counts j = 30 - j"

definition batch_counts :: "nat \<Rightarrow> nat" where
  "batch_counts j = 100"

definition stalled_counts :: "nat \<Rightarrow> nat" where
  "stalled_counts j = 7"

definition growing_counts :: "nat \<Rightarrow> nat" where
  "growing_counts j = 20 * (j + 1)"

text \<open>
  A download capability that fails for a URL holding \<open>bad\<close> and otherwise writes the
  file named by the output template with the extension \<open>mp4\<close>; a world whose only
  directory with entries is \<open>dir\<close>; a video URL.
\<close>

definition template_file :: "pystr \<Rightarrow> pystr" where
  "template_file outtmpl =
     (let name = rev (takeWhile (\<lambda>c. c \<noteq> 47) (rev outtmpl))
      in take (length name - 7) name @ u ''mp4'')"

definition sample_ydl :: downloader where
  "sample_ydl video_url outtmpl entries =
     (if contains (u ''bad'') video_url then (entries, Some (u ''ERROR: Video unavailable''))
      else (entries @ [template_file outtmpl], None))"

definition folder_world :: "pystr \<Rightarrow> pystr list \<Rightarrow> world" where
  "folder_world dir entries =
     \<lparr>fs = (\<lambda>d. if d = dir then entries else []), json_files = (\<lambda>p. None), ydl_calls = []\<rparr>"

definition clip_url :: pystr where
  "clip_url = u ''https://www.youtube.com/watch?v=abc''"

text \<open>
  A page that shows the given entries at every scroll, with no title element and the
  list identifier \<open>PL1\<close>; an environment that shows this page for every URL; the
  default options of the source and the same with \<open>continue_on_error\<close> off; five
  entries, the third with a URL the sample capability fails on; the playlist
  metadata and the videos extraction gives for them.
\<close>

definition sample_element :: "pystr \<Rightarrow> pystr \<Rightarrow> element" where
  "sample_element href text = \<lparr>link = Some (Some href, text), upload_text = None\<rparr>"

definition sample_page :: "element list \<Rightarrow> page" where
  "sample_page es =
     \<lparr>load_error = None, scroll_counts = (\<lambda>j. length es), rendered = (\<lambda>n. es),
      find_text = (\<lambda>selector. None),
      current_url = u ''https://www.youtube.com/playlist?list=PL1'',
      list_param = Some (u ''PL1'')\<rparr>"

definition sample_env :: "element list \<Rightarrow> env" where
  "sample_env es =
     \<lparr>download_folder = u ''downloads'', browse = (\<lambda>playlist_url. sample_page es),
      ydl = sample_ydl, now = u ''2024-01-01T00:00:00''\<rparr>"

definition default_config :: config where
  "default_config =
     \<lparr>max_retries = 3, delay_between_downloads = 3000, continue_on_error = True,
      headless = True, max_videos = None, create_playlist_folder = True,
      sort_order = ''playlist'', delay_between_playlists = 5000,
      continue_on_playlist_error = True\<rparr>"

definition five_elements :: "element list" where
  "five_elements =
     [sample_element (u ''/watch?v=a1&list=PL1'') (u ''one''),
      sample_element (u ''/watch?v=a2&list=PL1'') (u ''two''),
      sample_element (u ''/watch?v=bad&list=PL1'') (u ''three''),
      sample_element (u ''/watch?v=a4&list=PL1'') (u ''four''),
      sample_element (u ''/watch?v=a5&list=PL1'') (u ''five'')]"

definition sample_info :: PlaylistInfo where
  "sample_info = \<lparr>pl_title = u ''Playlist_PL1'', channel = u ''Unknown'',
     pl_url = u ''https://www.youtube.com/playlist?list=PL1'', total_videos = 0\<rparr>"

definition sample_video :: "pystr \<Rightarrow> pystr \<Rightarrow> nat \<Rightarrow> nat option \<Rightarrow> VideoInfo" where
  "sample_video t l i d = \<lparr>title = t, url = l, playlist_index = i, upload_info = None, download_index = d\<rparr>"

definition five_videos :: "VideoInfo list" where
  "five_videos =
   [sample_video (u ''one'') (u ''/watch?v=a1'') 1 (Some 1),
    sample_video (u ''two'') (u ''/watch?v=a2'') 2 (Some 2),
    sample_video (u ''three'') (u ''/watch?v=bad'') 3 (Some 3),
    sample_video (u ''four'') (u ''/watch?v=a4'') 4 (Some 4),
    sample_video (u ''five'') (u ''/watch?v=a5'') 5 (Some 5)]"

definition one_bad_element :: "element list" where
  "one_bad_element = [sample_element (u ''/watch?v=bad&list=PL1'') (u ''three'')]"

definition stop_config :: config where
  "stop_config = default_config\<lparr>continue_on_error := False\<rparr>"

definition playlist_url1 :: pystr where
  "playlist_url1 = u ''https://www.youtube.com/playlist?list=PL1''"


text \<open>
  A page whose only entry has no watch link; a page that fails to load; an
  environment that shows the failing page for one URL and the playlist with the one
  failing video for every other; the default options with
  \<open>continue_on_playlist_error\<close> off.
\<close>

definition no_watch_element :: "element list" where
  "no_watch_element = [sample_element (u ''/playlist?list=PL1'') (u ''intro'')]"

definition broken_page :: page where
  "broken_page = (sample_page [])\<lparr>load_error := Some (u ''TimeoutException'')\<rparr>"

definition broken_url :: pystr where
  "broken_url = u ''https://www.youtube.com/playlist?list=PL0''"

definition mixed_env :: env where
  "mixed_env = (sample_env one_bad_element)
     \<lparr>browse := (\<lambda>playlist_url. if playlist_url = broken_url then broken_page
                                 else sample_page one_bad_element)\<rparr>"

definition strict_config :: config where
  "strict_config = default_config\<lparr>continue_on_playlist_error := False\<rparr>"

section \<open>Properties of sanitize_filename\<close>

lemma set_collapse_ws: "set (collapse_ws s) \<subseteq> insert 32 (set s)"
  by (induction s rule: collapse_ws.induct) (auto dest: set_dropWhileD)

lemma set_strip: "set (strip s) \<subseteq> set s"
proof
  fix x assume "x \<in> set (strip s)"
  then have "x \<in> set (dropWhile is_space (rev (dropWhile is_space s)))" by (simp add: strip_def)
  then have "x \<in> set (rev (dropWhile is_space s))" by (rule set_dropWhileD)
  then have "x \<in> set (dropWhile is_space s)" by simp
  then show "x \<in> set s" by (rule set_dropWhileD)
qed

lemma space32: "is_space 32" by (simp add: is_space_def)
lemma valid32: "32 \<notin> set invalid_chars" by (simp add: invalid_chars_def)

lemma hd_collapse_ws:
  "(case xs of [] \<Rightarrow> True | d # _ \<Rightarrow> \<not> is_space d) \<Longrightarrow>
   (case collapse_ws xs of [] \<Rightarrow> True | d # _ \<Rightarrow> \<not> is_space d)"
  by (cases xs) simp_all

lemma hd_dropWhile_space:
  "(case dropWhile is_space cs of [] \<Rightarrow> True | d # _ \<Rightarrow> \<not> is_space d)"
  by (induction cs) simp_all

lemma hd_collapse_dropWhile:
  "(case collapse_ws (dropWhile is_space cs) of [] \<Rightarrow> True | d # _ \<Rightarrow> \<not> is_space d)"
  by (rule hd_collapse_ws) (rule hd_dropWhile_space)

lemma tidy_collapse_ws: "set s \<inter> set invalid_chars = {} \<Longrightarrow> tidy (collapse_ws s)"
proof (induction s rule: collapse_ws.induct)
  case 1 show ?case by simp
next
  case (2 c cs)
  show ?case
  proof (cases "is_space c")
    case True
    have "set (dropWhile is_space cs) \<subseteq> set cs" by (auto dest: set_dropWhileD)
    then have "set (dropWhile is_space cs) \<inter> set invalid_chars = {}"
      using "2.prems" by auto
    with True "2.IH"(1) have "tidy (collapse_ws (dropWhile is_space cs))" by simp
    with True show ?thesis using hd_collapse_dropWhile[of cs] by (simp add: space32 valid32)
  next
    case False
    with "2.IH"(2) "2.prems" show ?thesis by simp
  qed
qed


lemma tidy_append: "tidy (xs @ ys) \<Longrightarrow> tidy xs \<and> tidy ys"
proof (induction xs)
  case Nil then show ?case by simp
next
  case (Cons x xs)
  then show ?case by (cases xs) (auto split: list.splits)
qed

lemma tidy_dropWhile: "tidy s \<Longrightarrow> tidy (dropWhile P s)"
  using tidy_append[of "takeWhile P s" "dropWhile P s"] by simp

lemma rstrip_prefix: "rev (dropWhile P (rev s)) @ rev (takeWhile P (rev s)) = s"
proof -
  have "rev (takeWhile P (rev s) @ dropWhile P (rev s)) = s" by simp
  then show ?thesis by (simp only: rev_append)
qed

lemma tidy_rstrip: "tidy s \<Longrightarrow> tidy (rev (dropWhile P (rev s)))"
  using tidy_append[of "rev (dropWhile P (rev s))" "rev (takeWhile P (rev s))"]
  by (simp only: rstrip_prefix)

lemma tidy_strip: "tidy s \<Longrightarrow> tidy (strip s)"
  by (simp add: strip_def tidy_dropWhile tidy_rstrip)

lemma tidy_take: "tidy s \<Longrightarrow> tidy (take n s)"
  using tidy_append[of "take n s" "drop n s"] by simp

lemma tidy_remove_invalid: "tidy s \<Longrightarrow> remove_invalid s = s"
  by (induction s) (auto simp: remove_invalid_def)

lemma tidy_collapse_id: "tidy s \<Longrightarrow> collapse_ws s = s"
proof (induction s rule: collapse_ws.induct)
  case 1 show ?case by simp
next
  case (2 c cs)
  then show ?case by (cases cs) auto
qed


lemma tidy_last_two: "tidy (zs @ [d, c]) \<Longrightarrow> is_space c \<Longrightarrow> \<not> is_space d"
proof -
  assume t: "tidy (zs @ [d, c])" and c: "is_space c"
  from tidy_append[OF t] have "tidy [d, c]" by simp
  with c show "\<not> is_space d" by auto
qed

lemma tidy_last: "tidy (ys @ [c]) \<Longrightarrow> is_space c \<Longrightarrow> c = 32"
proof -
  assume t: "tidy (ys @ [c])" and c: "is_space c"
  from tidy_append[OF t] have "tidy [c]" by simp
  with c show "c = 32" by simp
qed

lemma rstrip_tidy:
  assumes t: "tidy r" and h: "case r of [] \<Rightarrow> True | d # _ \<Rightarrow> \<not> is_space d"
  shows "rev (dropWhile is_space (rev r)) = (if r \<noteq> [] \<and> last r = 32 then butlast r else r)"
proof (cases r rule: rev_cases)
  case Nil then show ?thesis by simp
next
  case (snoc ys c)
  show ?thesis
  proof (cases "is_space c")
    case False
    then have "c \<noteq> 32" using space32 by auto
    with False snoc show ?thesis by simp
  next
    case True
    have c32: "c = 32" using tidy_last t snoc True by blast
    show ?thesis
    proof (cases ys rule: rev_cases)
      case Nil
      with snoc h True show ?thesis by simp
    next
      case (snoc zs d)
      with \<open>r = ys @ [c]\<close> t have "tidy (zs @ [d, c])" by simp
      then have "\<not> is_space d" using True by (rule tidy_last_two)
      with snoc \<open>r = ys @ [c]\<close> True c32 show ?thesis by (simp add: butlast_append)
    qed
  qed
qed

lemma head_prefix:
  "(case xs @ ys of [] \<Rightarrow> True | d # _ \<Rightarrow> \<not> P d) \<Longrightarrow> (case xs of [] \<Rightarrow> True | d # _ \<Rightarrow> \<not> P d)"
  by (cases xs) simp_all

lemma head_strip: "case strip s of [] \<Rightarrow> True | d # _ \<Rightarrow> \<not> is_space d"
proof -
  let ?t = "dropWhile is_space s"
  have "case rev (dropWhile is_space (rev ?t)) @ rev (takeWhile is_space (rev ?t)) of [] \<Rightarrow> True | d # _ \<Rightarrow> \<not> is_space d"
    by (simp only: rstrip_prefix hd_dropWhile_space)
  then show ?thesis unfolding strip_def by (rule head_prefix)
qed

lemma head_take:
  "(case xs of [] \<Rightarrow> True | d # _ \<Rightarrow> \<not> P d) \<Longrightarrow> (case take n xs of [] \<Rightarrow> True | d # _ \<Rightarrow> \<not> P d)"
  using head_prefix[where xs="take n xs" and ys="drop n xs" and P=P] by simp

lemma remove_invalid_valid: "set (remove_invalid s) \<inter> set invalid_chars = {}"
  by (auto simp: remove_invalid_def)

lemma tidy_sanitize: "tidy (sanitize_filename x)"
  by (simp add: sanitize_filename_def tidy_take tidy_strip tidy_collapse_ws remove_invalid_valid)

lemma head_sanitize: "case sanitize_filename x of [] \<Rightarrow> True | d # _ \<Rightarrow> \<not> is_space d"
  by (simp add: sanitize_filename_def head_take head_strip)

lemma length_sanitize: "length (sanitize_filename x) \<le> 255"
  by (simp add: sanitize_filename_def)

lemma dropWhile_head:
  "(case r of [] \<Rightarrow> True | d # _ \<Rightarrow> \<not> P d) \<Longrightarrow> dropWhile P r = r"
  by (cases r) simp_all

lemma sanitize_tidy:
  assumes t: "tidy r" and h: "case r of [] \<Rightarrow> True | d # _ \<Rightarrow> \<not> is_space d" and l: "length r \<le> 255"
  shows "sanitize_filename r = (if r \<noteq> [] \<and> last r = 32 then butlast r else r)"
proof -
  have "strip r = (if r \<noteq> [] \<and> last r = 32 then butlast r else r)"
    by (simp only: strip_def dropWhile_head[OF h] rstrip_tidy[OF t h])
  moreover have "length (if r \<noteq> [] \<and> last r = 32 then butlast r else r) \<le> 255"
  proof -
    have b: "length (butlast r) \<le> length r" by simp
    from b l have "length (butlast r) \<le> 255" by (rule order_trans)
    with l show ?thesis by (simp del: length_butlast)
  qed
  ultimately show ?thesis
    by (simp add: sanitize_filename_def tidy_remove_invalid[OF t] tidy_collapse_id[OF t])
qed

lemma collapse_ws_nonspace:
  "\<forall>x\<in>set xs. \<not> is_space x \<Longrightarrow> collapse_ws (xs @ ys) = xs @ collapse_ws ys"
  by (induction xs) simp_all

lemma dropWhile_replicate:
  "\<not> P a \<Longrightarrow> 0 < n \<Longrightarrow> dropWhile P (replicate n a @ ys) = replicate n a @ ys"
  by (cases n) simp_all

lemma nsp97: "\<not> is_space 97" by (simp add: is_space_def)
lemma nsp98: "\<not> is_space 98" by (simp add: is_space_def)

lemma tidy_valid: "tidy s \<Longrightarrow> set s \<inter> set invalid_chars = {}"
  by (induction s) auto

lemma strip_no_trailing_space:
  "strip s \<noteq> [] \<Longrightarrow> \<not> is_space (last (strip s))"
proof -
  assume ne: "strip s \<noteq> []"
  let ?t = "dropWhile is_space (rev (dropWhile is_space s))"
  from ne have t: "?t \<noteq> []" by (simp add: strip_def)
  then have "\<not> is_space (hd ?t)" by (rule hd_dropWhile)
  moreover have "last (strip s) = hd ?t" using t by (simp add: strip_def last_rev)
  ultimately show ?thesis by simp
qed

lemma sanitize_short:
  assumes "length (strip (collapse_ws (remove_invalid x))) \<le> 255"
  shows "sanitize_filename (sanitize_filename x) = sanitize_filename x"
proof -
  let ?t = "strip (collapse_ws (remove_invalid x))"
  have eq: "sanitize_filename x = ?t" using assms by (simp add: sanitize_filename_def)
  have "\<not> (?t \<noteq> [] \<and> last ?t = 32)"
    using strip_no_trailing_space[of "collapse_ws (remove_invalid x)"] space32 by auto
  with sanitize_tidy[OF tidy_sanitize head_sanitize length_sanitize, of x] eq
  show ?thesis by simp
qed


text \<open>
  Claim C5, as the code has it. The result of \<open>sanitize_filename\<close> is at most 255
  characters long and holds none of the nine invalid characters. Sanitising it again
  changes it in one case only: when the cut at 255 characters falls right after a
  space, the result ends in that space and the second pass strips it. Otherwise, and
  always when the cleaned name is at most 255 characters long, the second pass returns
  the same name.
\<close>

theorem sanitize_filename_twice:
  "sanitize_filename (sanitize_filename x) =
     (if sanitize_filename x \<noteq> [] \<and> last (sanitize_filename x) = 32
      then butlast (sanitize_filename x) else sanitize_filename x) \<and>
   (length (strip (collapse_ws (remove_invalid x))) \<le> 255 \<longrightarrow>
      sanitize_filename (sanitize_filename x) = sanitize_filename x) \<and>
   length (sanitize_filename x) \<le> 255 \<and>
   set (sanitize_filename x) \<inter> set invalid_chars = {}"
  using sanitize_tidy[OF tidy_sanitize head_sanitize length_sanitize, of x]
        sanitize_short[of x] length_sanitize[of x] tidy_valid[OF tidy_sanitize, of x]
  by blast


text \<open>A title with a slash, a doubled space and a trailing space: no cut, and a second pass changes nothing.\<close>

lemma sanitize_example: "sanitize_filename (u ''a/b  c '') = u ''ab c''"
  by (simp add: u_def sanitize_filename_def remove_invalid_def invalid_chars_def strip_def is_space_def)


theorem sanitize_filename_twice_witness:
  "length (strip (collapse_ws (remove_invalid (u ''a/b  c '')))) \<le> 255 \<and>
   sanitize_filename (sanitize_filename (u ''a/b  c '')) = sanitize_filename (u ''a/b  c '') \<and>
   sanitize_filename (u ''a/b  c '') = u ''ab c''"
proof -
  have l: "length (strip (collapse_ws (remove_invalid (u ''a/b  c '')))) \<le> 255"
    by (simp add: u_def remove_invalid_def invalid_chars_def strip_def is_space_def)
  from sanitize_filename_twice[of "u ''a/b  c ''"] l
  have "sanitize_filename (sanitize_filename (u ''a/b  c '')) = sanitize_filename (u ''a/b  c '')"
    by blast
  with l sanitize_example show ?thesis by simp
qed


text \<open>
  254 letters \<open>a\<close>, a space and a \<open>b\<close>: the first pass cuts after the space, the second
  strips it, so the two results differ.
\<close>

lemma sanitize_long_a:
  "sanitize_filename (replicate 254 97 @ [32, 98]) = replicate 254 97 @ [32]"
proof -
  have 1: "remove_invalid (replicate 254 97 @ [32, 98]) = replicate 254 97 @ [32, 98]"
    by (simp add: remove_invalid_def invalid_chars_def)
  have 2: "collapse_ws (replicate 254 97 @ [32, 98]) = replicate 254 97 @ [32, 98]"
    by (simp add: collapse_ws_nonspace nsp97 nsp98 space32)
  have 3: "dropWhile is_space (replicate 254 97 @ [32, 98]) = replicate 254 97 @ [32, 98]"
    by (rule dropWhile_replicate) (simp_all add: nsp97)
  have 4: "strip (replicate 254 97 @ [32, 98]) = replicate 254 97 @ [32, 98]"
    by (simp add: strip_def 3 nsp98)
  show ?thesis by (simp add: sanitize_filename_def 1 2 4)
qed

lemma sanitize_long_b: "sanitize_filename (replicate 254 97 @ [32]) = replicate 254 97"
proof -
  have 1: "remove_invalid (replicate 254 97 @ [32]) = replicate 254 97 @ [32]"
    by (simp add: remove_invalid_def invalid_chars_def)
  have 2: "collapse_ws (replicate 254 97 @ [32]) = replicate 254 97 @ [32]"
    by (simp add: collapse_ws_nonspace nsp97 space32)
  have 3: "dropWhile is_space (replicate 254 97 @ [32]) = replicate 254 97 @ [32]"
    by (rule dropWhile_replicate) (simp_all add: nsp97)
  have 4: "strip (replicate 254 97 @ [32]) = replicate 254 97"
    by (simp add: strip_def 3 space32 nsp97)
  show ?thesis by (simp add: sanitize_filename_def 1 2 4)
qed


theorem sanitize_filename_not_idempotent:
  "sanitize_filename (sanitize_filename (replicate 254 97 @ [32, 98])) \<noteq>
   sanitize_filename (replicate 254 97 @ [32, 98])"
  by (simp add: sanitize_long_a sanitize_long_b)

section \<open>Properties of the ordering\<close>










section \<open>Properties of the scroll loop\<close>

lemma scroll_step_simps:
  "scroll_attempts (scroll_step counts st) = scroll_attempts st + 1"
  "current_count (scroll_step counts st) = counts (scroll_attempts st)"
  "previous_count (scroll_step counts st) = current_count st"
  "no_change_count (scroll_step counts st) =
     (if counts (scroll_attempts st) = current_count st then no_change_count st + 1 else 0)"
  by (simp_all add: scroll_step_def Let_def)

lemma scroll_loop_stop:
  "\<not> (scroll_attempts st < cap \<and> no_change_count st < ncap) \<Longrightarrow>
   scroll_loop cap ncap mv counts st = st"
  by (subst scroll_loop.simps) (simp only: if_False)

lemma scroll_loop_break:
  "scroll_attempts st < cap \<and> no_change_count st < ncap \<Longrightarrow>
   limit_reached mv (scroll_step counts st) \<Longrightarrow>
   scroll_loop cap ncap mv counts st = scroll_step counts st"
  by (subst scroll_loop.simps) (simp add: Let_def)

lemma scroll_loop_continue:
  "scroll_attempts st < cap \<and> no_change_count st < ncap \<Longrightarrow>
   \<not> limit_reached mv (scroll_step counts st) \<Longrightarrow>
   scroll_loop cap ncap mv counts st = scroll_loop cap ncap mv counts (scroll_step counts st)"
  by (subst scroll_loop.simps) (simp add: Let_def)

lemma prev_count_Suc: "prev_count counts (Suc a) = counts a"
  by (simp add: prev_count_def)

lemma streak_bound:
  assumes "current_count st = prev_count counts (scroll_attempts st)"
    and "no_change_count st \<le> ncap"
    and "\<forall>j. scroll_attempts st \<le> j \<and> j < scroll_attempts st + (ncap - no_change_count st)
           \<longrightarrow> counts j = prev_count counts j"
  shows "scroll_attempts (scroll_loop cap ncap mv counts st)
           \<le> scroll_attempts st + (ncap - no_change_count st)"
  using assms
proof (induction cap ncap mv counts st rule: scroll_loop.induct)
  case (1 cap ncap mv counts st)
  let ?a = "scroll_attempts st" and ?k = "no_change_count st"
  show ?case
  proof (cases "?a < cap \<and> ?k < ncap")
    case False
    then show ?thesis by (simp add: scroll_loop_stop)
  next
    case True
    let ?st' = "scroll_step counts st"
    from True have kn: "?k < ncap" by simp
    have "counts ?a = prev_count counts ?a" using "1.prems"(3) kn by simp
    then have same: "counts ?a = current_count st" using "1.prems"(1) by simp
    have a': "scroll_attempts ?st' = Suc ?a" by (simp add: scroll_step_simps)
    have k': "no_change_count ?st' = Suc ?k" using same by (simp add: scroll_step_simps)
    show ?thesis
    proof (cases "limit_reached mv ?st'")
      case lim: True
      have "scroll_loop cap ncap mv counts st = ?st'"
        using True lim by (simp add: scroll_loop_break scroll_loop_continue)
      with a' kn show ?thesis by simp
    next
      case lim: False
      have eq: "scroll_loop cap ncap mv counts st = scroll_loop cap ncap mv counts ?st'"
        using True lim by (simp add: scroll_loop_break scroll_loop_continue)
      have p1: "current_count ?st' = prev_count counts (scroll_attempts ?st')"
        by (simp add: a' prev_count_Suc scroll_step_simps)
      have p2: "no_change_count ?st' \<le> ncap" using k' kn by simp
      have p3: "\<forall>j. scroll_attempts ?st' \<le> j \<and>
                   j < scroll_attempts ?st' + (ncap - no_change_count ?st')
                   \<longrightarrow> counts j = prev_count counts j"
      proof (intro allI impI)
        fix j
        assume "scroll_attempts ?st' \<le> j \<and>
                j < scroll_attempts ?st' + (ncap - no_change_count ?st')"
        then have "?a \<le> j \<and> j < ?a + (ncap - ?k)" using kn unfolding a' k' by arith
        with "1.prems"(3) show "counts j = prev_count counts j" by blast
      qed
      have "scroll_attempts (scroll_loop cap ncap mv counts ?st')
              \<le> scroll_attempts ?st' + (ncap - no_change_count ?st')"
        using "1.IH"[OF True refl lim p1 p2 p3] .
      with eq a' k' kn show ?thesis by simp
    qed
  qed
qed

lemma loop_reaches:
  assumes "current_count st = prev_count counts (scroll_attempts st)"
    and "scroll_attempts st \<le> i"
    and "no_change_count st \<le> ncap"
  shows "scroll_attempts (scroll_loop cap ncap mv counts st) \<le> i \<or>
         (\<exists>st'. current_count st' = prev_count counts i \<and> scroll_attempts st' = i \<and>
                no_change_count st' \<le> ncap \<and>
                scroll_loop cap ncap mv counts st = scroll_loop cap ncap mv counts st')"
  using assms
proof (induction cap ncap mv counts st rule: scroll_loop.induct)
  case (1 cap ncap mv counts st)
  let ?a = "scroll_attempts st" and ?k = "no_change_count st"
  show ?case
  proof (cases "?a = i")
    case True
    with "1.prems" show ?thesis by blast
  next
    case ne: False
    with "1.prems"(2) have lt: "?a < i" by simp
    show ?thesis
    proof (cases "?a < cap \<and> ?k < ncap")
      case False
      then have "scroll_loop cap ncap mv counts st = st" by (rule scroll_loop_stop)
      with "1.prems"(2) show ?thesis by simp
    next
      case True
      let ?st' = "scroll_step counts st"
      have a': "scroll_attempts ?st' = Suc ?a" by (simp add: scroll_step_simps)
      show ?thesis
      proof (cases "limit_reached mv ?st'")
        case lim: True
        have "scroll_loop cap ncap mv counts st = ?st'"
          using True lim by (simp add: scroll_loop_break scroll_loop_continue)
        with a' lt show ?thesis by simp
      next
        case lim: False
        have eq: "scroll_loop cap ncap mv counts st = scroll_loop cap ncap mv counts ?st'"
          using True lim by (simp add: scroll_loop_break scroll_loop_continue)
        have p1: "current_count ?st' = prev_count counts (scroll_attempts ?st')"
          by (simp add: a' prev_count_Suc scroll_step_simps)
        have p2: "scroll_attempts ?st' \<le> i" using a' lt by simp
        have p3: "no_change_count ?st' \<le> ncap" using True by (simp add: scroll_step_simps)
        from "1.IH"[OF True refl lim p1 p2 p3] show ?thesis by (simp only: eq)
      qed
    qed
  qed
qed

lemma ten_unchanged_stop:
  assumes "\<forall>j. i \<le> j \<and> j < i + ncap \<longrightarrow> counts j = prev_count counts j"
  shows "scroll_attempts (scroll_loop cap ncap mv counts scroll_init) \<le> i + ncap"
proof -
  have i1: "current_count scroll_init = prev_count counts (scroll_attempts scroll_init)"
    by (simp add: scroll_init_def prev_count_def)
  have i2: "scroll_attempts scroll_init \<le> i" by (simp add: scroll_init_def)
  have i3: "no_change_count scroll_init \<le> ncap" by (simp add: scroll_init_def)
  from loop_reaches[OF i1 i2 i3, of cap mv]
  show ?thesis
  proof
    assume "scroll_attempts (scroll_loop cap ncap mv counts scroll_init) \<le> i"
    then show ?thesis by simp
  next
    assume "\<exists>st'. current_count st' = prev_count counts i \<and> scroll_attempts st' = i \<and>
                no_change_count st' \<le> ncap \<and>
                scroll_loop cap ncap mv counts scroll_init = scroll_loop cap ncap mv counts st'"
    then obtain st' where c: "current_count st' = prev_count counts i"
      and a: "scroll_attempts st' = i" and k: "no_change_count st' \<le> ncap"
      and eq: "scroll_loop cap ncap mv counts scroll_init = scroll_loop cap ncap mv counts st'"
      by blast
    have c': "current_count st' = prev_count counts (scroll_attempts st')" using c a by simp
    have w: "\<forall>j. scroll_attempts st' \<le> j \<and> j < scroll_attempts st' + (ncap - no_change_count st')
               \<longrightarrow> counts j = prev_count counts j"
      using assms a by auto
    from streak_bound[OF c' k w, of cap mv] eq a show ?thesis by simp
  qed
qed

lemma loop_final:
  assumes "current_count st = prev_count counts (scroll_attempts st)"
    and "\<forall>j. j < scroll_attempts st \<longrightarrow> \<not> (m \<noteq> 0 \<and> m \<le> int (counts j))"
  shows "current_count (scroll_loop cap ncap (Some m) counts st)
           = prev_count counts (scroll_attempts (scroll_loop cap ncap (Some m) counts st)) \<and>
         (\<forall>j. Suc j < scroll_attempts (scroll_loop cap ncap (Some m) counts st)
              \<longrightarrow> \<not> (m \<noteq> 0 \<and> m \<le> int (counts j))) \<and>
         (limit_reached (Some m) (scroll_loop cap ncap (Some m) counts st) \<or>
          \<not> (scroll_attempts (scroll_loop cap ncap (Some m) counts st) < cap \<and>
             no_change_count (scroll_loop cap ncap (Some m) counts st) < ncap)) \<and>
         scroll_attempts st \<le> scroll_attempts (scroll_loop cap ncap (Some m) counts st)"
  using assms
proof (induction cap ncap "Some m" counts st rule: scroll_loop.induct)
  case (1 cap ncap counts st)
  let ?a = "scroll_attempts st"
  show ?case
  proof (cases "?a < cap \<and> no_change_count st < ncap")
    case False
    then have "scroll_loop cap ncap (Some m) counts st = st" by (rule scroll_loop_stop)
    with False "1.prems" show ?thesis by simp
  next
    case True
    let ?st' = "scroll_step counts st"
    have a': "scroll_attempts ?st' = Suc ?a" by (simp add: scroll_step_simps)
    have c': "current_count ?st' = counts ?a" by (simp add: scroll_step_simps)
    have p1: "current_count ?st' = prev_count counts (scroll_attempts ?st')"
      by (simp add: a' c' prev_count_Suc)
    show ?thesis
    proof (cases "limit_reached (Some m) ?st'")
      case lim: True
      have eq: "scroll_loop cap ncap (Some m) counts st = ?st'"
        using True lim by (rule scroll_loop_break)
      show ?thesis using p1 lim "1.prems"(2) by (simp add: eq a')
    next
      case lim: False
      have eq: "scroll_loop cap ncap (Some m) counts st = scroll_loop cap ncap (Some m) counts ?st'"
        using True lim by (rule scroll_loop_continue)
      have p2: "\<forall>j. j < scroll_attempts ?st' \<longrightarrow> \<not> (m \<noteq> 0 \<and> m \<le> int (counts j))"
      proof (intro allI impI)
        fix j assume "j < scroll_attempts ?st'"
        then have "j < ?a \<or> j = ?a" using a' by auto
        then show "\<not> (m \<noteq> 0 \<and> m \<le> int (counts j))"
        proof
          assume "j < ?a" with "1.prems"(2) show ?thesis by blast
        next
          assume "j = ?a"
          with lim c' show ?thesis by (simp add: limit_reached_def)
        qed
      qed
      from "1.hyps"[OF True refl lim p1 p2] a' show ?thesis by (simp add: eq)
    qed
  qed
qed

lemma discover_runs: "1 \<le> scroll_attempts (discover mv counts)"
proof -
  have c: "scroll_attempts scroll_init < max_scroll_attempts \<and>
           no_change_count scroll_init < max_no_change_attempts"
    by (simp add: scroll_init_def max_scroll_attempts_def max_no_change_attempts_def)
  let ?st' = "scroll_step counts scroll_init"
  have a': "scroll_attempts ?st' = 1" by (simp add: scroll_step_simps scroll_init_def)
  show ?thesis
  proof (cases "limit_reached mv ?st'")
    case True
    with c have "discover mv counts = ?st'" unfolding discover_def by (rule scroll_loop_break)
    with a' show ?thesis by simp
  next
    case False
    with c have eq: "discover mv counts =
        scroll_loop max_scroll_attempts max_no_change_attempts mv counts ?st'"
      unfolding discover_def by (rule scroll_loop_continue)
    show ?thesis
    proof (cases mv)
      case None
      have "\<And>cap ncap st. scroll_attempts st \<le> scroll_attempts (scroll_loop cap ncap None counts st)"
      proof -
        fix cap ncap st
        show "scroll_attempts st \<le> scroll_attempts (scroll_loop cap ncap None counts st)"
        proof (induction cap ncap "None :: int option" counts st rule: scroll_loop.induct)
          case (1 cap ncap counts st)
          show ?case
          proof (cases "scroll_attempts st < cap \<and> no_change_count st < ncap")
            case False then show ?thesis by (simp add: scroll_loop_stop)
          next
            case True
            have nl: "\<not> limit_reached None (scroll_step counts st)" by (simp add: limit_reached_def)
            from "1.hyps"[OF True refl nl] scroll_loop_continue[OF True nl]
            show ?thesis by (simp add: scroll_step_simps)
          qed
        qed
      qed
      from this[of ?st' max_scroll_attempts max_no_change_attempts] a' eq None show ?thesis by simp
    next
      case (Some m)
      have p1: "current_count ?st' = prev_count counts (scroll_attempts ?st')"
        by (simp add: scroll_step_simps scroll_init_def prev_count_def)
      have p2: "\<forall>j. j < scroll_attempts ?st' \<longrightarrow> \<not> (m \<noteq> 0 \<and> m \<le> int (counts j))"
        using False Some by (simp add: a' limit_reached_def scroll_step_simps scroll_init_def)
      from loop_final[OF p1 p2, of max_scroll_attempts max_no_change_attempts] a' eq Some
      show ?thesis by simp
    qed
  qed
qed


text \<open>
  Claim C2, as the code has it. In one pass of the loop the streak grows by one when
  the count equals the count of the scroll before, and is reset to 0 when the count
  differs from it, so on any increase. Whenever the count stays the same over ten
  consecutive scrolls, numbers \<open>i\<close> to \<open>i + 9\<close>, the loop makes no scroll after them:
  it has ended with at most \<open>i + 10\<close> scrolls. This holds for every attempt cap and
  every video limit. For a count that never falls, ten consecutive scrolls without an
  increase are ten scrolls with the same count, and end the loop in the same way.
\<close>

theorem no_change_streak:
  "no_change_count (scroll_step counts st) =
     (if counts (scroll_attempts st) = current_count st then no_change_count st + 1 else 0) \<and>
   ((\<forall>j. i \<le> j \<and> j < i + 10 \<longrightarrow> counts j = (if j = 0 then 0 else counts (j - 1))) \<longrightarrow>
      scroll_attempts (scroll_loop cap max_no_change_attempts mv counts scroll_init) \<le> i + 10 \<and>
      scroll_attempts (discover mv counts) \<le> i + 10) \<and>
   ((\<forall>j. (if j = 0 then 0 else counts (j - 1)) \<le> counts j) \<and>
    (\<forall>j. i \<le> j \<and> j < i + 10 \<longrightarrow> \<not> (if j = 0 then 0 else counts (j - 1)) < counts j) \<longrightarrow>
      scroll_attempts (scroll_loop cap max_no_change_attempts mv counts scroll_init) \<le> i + 10 \<and>
      scroll_attempts (discover mv counts) \<le> i + 10)"
proof -
  have stop: "scroll_attempts (scroll_loop cap' max_no_change_attempts mv counts scroll_init) \<le> i + 10"
    if "\<forall>j. i \<le> j \<and> j < i + 10 \<longrightarrow> counts j = (if j = 0 then 0 else counts (j - 1))" for cap'
    using ten_unchanged_stop[of i max_no_change_attempts counts cap' mv] that
    by (simp add: max_no_change_attempts_def prev_count_def)
  have same: "\<forall>j. i \<le> j \<and> j < i + 10 \<longrightarrow> counts j = (if j = 0 then 0 else counts (j - 1))"
    if m: "\<forall>j. (if j = 0 then 0 else counts (j - 1)) \<le> counts j"
      and n: "\<forall>j. i \<le> j \<and> j < i + 10 \<longrightarrow> \<not> (if j = 0 then 0 else counts (j - 1)) < counts j"
  proof (intro allI impI)
    fix j assume r: "i \<le> j \<and> j < i + 10"
    from m have "(if j = 0 then 0 else counts (j - 1)) \<le> counts j" by (rule spec)
    moreover from n r have "\<not> (if j = 0 then 0 else counts (j - 1)) < counts j" by blast
    ultimately show "counts j = (if j = 0 then 0 else counts (j - 1))" by arith
  qed
  have step: "no_change_count (scroll_step counts st) =
     (if counts (scroll_attempts st) = current_count st then no_change_count st + 1 else 0)"
    by (simp add: scroll_step_simps)
  from stop same step show ?thesis unfolding discover_def by blast
qed


text \<open>A count that stays at 7: the first scroll resets the streak, the second starts it, and the loop ends after scroll number 10.\<close>

lemma discover_stalled: "discover None stalled_counts =
  \<lparr>previous_count = 7, current_count = 7, scroll_attempts = 11, no_change_count = 10\<rparr>"
  by (simp add: discover_def scroll_loop.simps scroll_step_def scroll_init_def limit_reached_def
      stalled_counts_def max_scroll_attempts_def max_no_change_attempts_def)


theorem no_change_streak_witness:
  "map stalled_counts [0..<11] = [7, 7, 7, 7, 7, 7, 7, 7, 7, 7, 7] \<and>
   scroll_attempts (discover None stalled_counts) \<le> 1 + 10 \<and>
   scroll_attempts (discover None stalled_counts) = 11 \<and>
   no_change_count (scroll_step stalled_counts scroll_init) = 0 \<and>
   no_change_count (scroll_step stalled_counts (scroll_step stalled_counts scroll_init)) = 1"
proof -
  have v: "map stalled_counts [0..<11] = [7, 7, 7, 7, 7, 7, 7, 7, 7, 7, 7]"
    by (simp add: stalled_counts_def upt_rec)
  have h: "\<forall>j. 1 \<le> j \<and> j < 1 + 10 \<longrightarrow> stalled_counts j = (if j = 0 then 0 else stalled_counts (j - 1))"
    by (simp add: stalled_counts_def)
  from no_change_streak[of stalled_counts scroll_init 1 max_scroll_attempts None] h
  have a: "scroll_attempts (discover None stalled_counts) \<le> 1 + 10"
    and b: "no_change_count (scroll_step stalled_counts scroll_init) =
      (if stalled_counts (scroll_attempts scroll_init) = current_count scroll_init
       then no_change_count scroll_init + 1 else 0)"
    by blast+
  from no_change_streak[of stalled_counts "scroll_step stalled_counts scroll_init" 1 max_scroll_attempts None]
  have c: "no_change_count (scroll_step stalled_counts (scroll_step stalled_counts scroll_init)) =
      (if stalled_counts (scroll_attempts (scroll_step stalled_counts scroll_init))
            = current_count (scroll_step stalled_counts scroll_init)
       then no_change_count (scroll_step stalled_counts scroll_init) + 1 else 0)"
    by blast
  have hm: "\<forall>j. (if j = 0 then 0 else stalled_counts (j - 1)) \<le> stalled_counts j"
    by (simp add: stalled_counts_def)
  have hn: "\<forall>j. 1 \<le> j \<and> j < 1 + 10 \<longrightarrow>
              \<not> (if j = 0 then 0 else stalled_counts (j - 1)) < stalled_counts j"
    by (simp add: stalled_counts_def)
  from no_change_streak[of stalled_counts scroll_init 1 max_scroll_attempts None] hm hn
  have a2: "scroll_attempts (discover None stalled_counts) \<le> 1 + 10"
    by blast
  have b': "no_change_count (scroll_step stalled_counts scroll_init) = 0"
    using b by (simp add: stalled_counts_def scroll_init_def)
  have c': "no_change_count (scroll_step stalled_counts (scroll_step stalled_counts scroll_init)) = 1"
    using c b' by (simp add: stalled_counts_def scroll_step_simps)
  from v a a2 b' c' discover_stalled show ?thesis by simp
qed

text \<open>
  A count that falls from 30 by one at each scroll: scrolls 1 to 10 show no increase,
  yet each of them resets the streak and the loop runs on to 41 scrolls.
\<close>

lemma discover_falling: "discover None falling_counts =
  \<lparr>previous_count = 0, current_count = 0, scroll_attempts = 41, no_change_count = 10\<rparr>"
  by (simp add: discover_def scroll_loop.simps scroll_step_def scroll_init_def limit_reached_def
      falling_counts_def max_scroll_attempts_def max_no_change_attempts_def)

lemma falling_values: "map falling_counts [0..<11] = [30, 29, 28, 27, 26, 25, 24, 23, 22, 21, 20]"
  by (simp add: falling_counts_def upt_rec)

theorem falling_counts_no_stop:
  "map falling_counts [0..<11] = [30, 29, 28, 27, 26, 25, 24, 23, 22, 21, 20] \<and>
   scroll_attempts (discover None falling_counts) = 41"
  by (simp only: falling_values discover_falling) simp


text \<open>
  Claim C6, as the code has it. With a limit \<open>m\<close> of at least 1 the loop makes at least
  one scroll, the count it ends with is the count of its last scroll, and no earlier
  scroll showed \<open>m\<close> entries or more: the loop ends right after the first scroll whose
  count meets or exceeds \<open>m\<close>. It ends with a count of at least \<open>m\<close>, or else through
  the streak of 10 or the cap of 100.
\<close>

theorem discovery_limit:
  assumes "0 < m"
  shows "1 \<le> scroll_attempts (discover (Some m) counts) \<and>
         current_count (discover (Some m) counts)
           = counts (scroll_attempts (discover (Some m) counts) - 1) \<and>
         (\<forall>j. Suc j < scroll_attempts (discover (Some m) counts) \<longrightarrow> int (counts j) < m) \<and>
         (m \<le> int (current_count (discover (Some m) counts)) \<or>
          10 \<le> no_change_count (discover (Some m) counts) \<or>
          100 \<le> scroll_attempts (discover (Some m) counts))"
proof -
  let ?r = "discover (Some m) counts"
  have i1: "current_count scroll_init = prev_count counts (scroll_attempts scroll_init)"
    by (simp add: scroll_init_def prev_count_def)
  have i2: "\<forall>j. j < scroll_attempts scroll_init \<longrightarrow> \<not> (m \<noteq> 0 \<and> m \<le> int (counts j))"
    by (simp add: scroll_init_def)
  from loop_final[OF i1 i2, of max_scroll_attempts max_no_change_attempts]
  have f1: "current_count ?r = prev_count counts (scroll_attempts ?r)"
    and f2: "\<forall>j. Suc j < scroll_attempts ?r \<longrightarrow> \<not> (m \<noteq> 0 \<and> m \<le> int (counts j))"
    and f3: "limit_reached (Some m) ?r \<or>
             \<not> (scroll_attempts ?r < max_scroll_attempts \<and> no_change_count ?r < max_no_change_attempts)"
    unfolding discover_def by blast+
  have r1: "1 \<le> scroll_attempts ?r" by (rule discover_runs)
  then have r2: "current_count ?r = counts (scroll_attempts ?r - 1)"
    using f1 by (simp add: prev_count_def)
  have r3: "\<forall>j. Suc j < scroll_attempts ?r \<longrightarrow> int (counts j) < m"
    using f2 assms by auto
  have r4: "m \<le> int (current_count ?r) \<or> 10 \<le> no_change_count ?r \<or> 100 \<le> scroll_attempts ?r"
    using f3 by (auto simp: limit_reached_def max_scroll_attempts_def max_no_change_attempts_def)
  from r1 r2 r3 r4 show ?thesis by blast
qed


text \<open>Counts 20, 40, 60 with the limit 50: the loop ends after the third scroll with 60 counted.\<close>

lemma discover_growing: "discover (Some 50) growing_counts =
  \<lparr>previous_count = 40, current_count = 60, scroll_attempts = 3, no_change_count = 0\<rparr>"
  by (simp add: discover_def scroll_loop.simps scroll_step_def scroll_init_def limit_reached_def
      growing_counts_def max_scroll_attempts_def max_no_change_attempts_def)


theorem discovery_limit_witness:
  "(0::int) < 50 \<and>
   map growing_counts [0..<3] = [20, 40, 60] \<and>
   scroll_attempts (discover (Some 50) growing_counts) = 3 \<and>
   current_count (discover (Some 50) growing_counts) = growing_counts 2 \<and>
   int (growing_counts 0) < 50 \<and> int (growing_counts 1) < 50 \<and>
   current_count (discover (Some 50) growing_counts) = 60"
proof -
  have z: "(0::int) < 50" by simp
  have v: "map growing_counts [0..<3] = [20, 40, 60]"
    by (simp add: growing_counts_def upt_rec)
  from discovery_limit[OF z, of growing_counts]
  have "current_count (discover (Some 50) growing_counts)
           = growing_counts (scroll_attempts (discover (Some 50) growing_counts) - 1)"
    and "\<forall>j. Suc j < scroll_attempts (discover (Some 50) growing_counts) \<longrightarrow> int (growing_counts j) < 50"
    by blast+
  then show ?thesis using v by (simp add: discover_growing)
qed

text \<open>A page that shows 100 entries at the first scroll, with the limit 50: the loop ends with 100 counted.\<close>

lemma discover_batch: "discover (Some 50) batch_counts =
  \<lparr>previous_count = 0, current_count = 100, scroll_attempts = 1, no_change_count = 0\<rparr>"
  by (simp add: discover_def scroll_loop.simps scroll_step_def scroll_init_def limit_reached_def
      batch_counts_def max_scroll_attempts_def max_no_change_attempts_def)


theorem discovery_overshoots_limit:
  "scroll_attempts (discover (Some 50) batch_counts) = 1 \<and>
   current_count (discover (Some 50) batch_counts) = 100"
  by (simp add: discover_batch)

section \<open>Properties of download_video_with_ytdlp\<close>

lemma glob_tokens_plain:
  "42 \<notin> set name \<Longrightarrow> 63 \<notin> set name \<Longrightarrow> 91 \<notin> set name \<Longrightarrow>
   glob_tokens (name @ rest) = map Lit name @ glob_tokens rest"
  by (induction name) auto

lemma glob_tokens_dot_star: "glob_tokens (u ''.*'') = [Lit 46, Star]"
  by (simp add: u_def)

lemma glob_match_star: "glob_match [Star] s"
  by (induction s) simp_all

lemma glob_match_lits:
  "glob_match (map Lit name @ ts) s \<longleftrightarrow> (\<exists>r. s = name @ r \<and> glob_match ts r)"
proof (induction name arbitrary: s)
  case Nil show ?case by simp
next
  case (Cons c cs)
  show ?case
  proof (cases s)
    case Nil then show ?thesis by simp
  next
    case (Cons d ds)
    with Cons.IH[of ds] show ?thesis by auto
  qed
qed

lemma glob_match_dot_star: "glob_match [Lit 46, Star] r \<longleftrightarrow> (\<exists>ext. r = 46 # ext)"
  by (cases r) (auto simp: glob_match_star)

lemma fnmatch_plain:
  assumes "42 \<notin> set name" "63 \<notin> set name" "91 \<notin> set name"
  shows "fnmatch f (name @ u ''.*'') \<longleftrightarrow> (\<exists>ext. f = name @ [46] @ ext)"
  unfolding fnmatch_def glob_tokens_plain[OF assms] glob_tokens_dot_star glob_match_lits
    glob_match_dot_star
  by auto

lemma sanitize_no_wildcards:
  "42 \<notin> set (sanitize_filename t) \<and> 63 \<notin> set (sanitize_filename t)"
  using tidy_valid[OF tidy_sanitize, of t] by (auto simp: invalid_chars_def)

lemma glob_plain:
  assumes "91 \<notin> set (sanitize_filename t)"
  shows "glob entries (sanitize_filename t @ u ''.*'') \<noteq> [] \<longleftrightarrow>
         (\<exists>f \<in> set entries. \<exists>ext. f = sanitize_filename t @ [46] @ ext)"
proof -
  have "\<And>f. fnmatch f (sanitize_filename t @ u ''.*'') \<longleftrightarrow> (\<exists>ext. f = sanitize_filename t @ [46] @ ext)"
    using fnmatch_plain[OF _ _ assms] sanitize_no_wildcards[of t] by blast
  then show ?thesis by (simp add: glob_def filter_empty_conv)
qed

lemma name_ignoring_extension_split:
  assumes "name_ignoring_extension f \<noteq> f"
  shows "\<exists>ext. f = name_ignoring_extension f @ [46] @ ext"
proof (cases "dropWhile (\<lambda>c. c \<noteq> 46) (rev f)")
  case Nil
  with assms show ?thesis by (simp add: name_ignoring_extension_def)
next
  case (Cons d before)
  have "\<not> (hd (dropWhile (\<lambda>c. c \<noteq> 46) (rev f)) \<noteq> 46)"
    by (rule hd_dropWhile) (simp add: Cons)
  then have d: "d = 46" by (simp add: Cons)
  from assms Cons have st: "name_ignoring_extension f = rev before"
    by (simp add: name_ignoring_extension_def split: if_splits)
  have "rev f = takeWhile (\<lambda>c. c \<noteq> 46) (rev f) @ dropWhile (\<lambda>c. c \<noteq> 46) (rev f)" by simp
  then have "rev f = takeWhile (\<lambda>c. c \<noteq> 46) (rev f) @ 46 # before" by (simp only: Cons d)
  then have "rev (rev f) = rev (takeWhile (\<lambda>c. c \<noteq> 46) (rev f) @ 46 # before)" by simp
  then have "f = rev before @ [46] @ rev (takeWhile (\<lambda>c. c \<noteq> 46) (rev f))" by simp
  with st show ?thesis by auto
qed

lemma fetch_skip:
  assumes "glob (fs w output_dir) (sanitize_filename custom_title @ u ''.*'') \<noteq> []"
  shows "download_video_with_ytdlp dl video_url custom_title output_dir w =
           (\<lparr>success = True, skipped = True, dr_title = sanitize_filename custom_title,
             error = None\<rparr>, w)"
  using assms by (simp add: download_video_with_ytdlp_def Let_def)

lemma fetch_download:
  assumes "glob (fs w output_dir) (sanitize_filename custom_title @ u ''.*'') = []"
  shows "download_video_with_ytdlp dl video_url custom_title output_dir w =
           (let output_path = path_join output_dir (sanitize_filename custom_title @ u ''.%(ext)s'');
                entries = fst (dl video_url output_path (fs w output_dir));
                raised = snd (dl video_url output_path (fs w output_dir));
                w' = w\<lparr>fs := (fs w)(output_dir := entries),
                       ydl_calls := ydl_calls w @ [(video_url, output_path)]\<rparr>
            in (\<lparr>success = (raised = None), skipped = False,
                 dr_title = (if raised = None then sanitize_filename custom_title else custom_title),
                 error = raised\<rparr>, w'))"
  using assms
  by (simp add: download_video_with_ytdlp_def Let_def split: prod.splits option.splits)


text \<open>
  Claim C4, as the code has it, for a title whose sanitised name holds no opening
  bracket (91). If the folder has an entry whose name is the sanitised name, a dot and
  anything after it, the result is the skipped one and the world is unchanged, so the
  download capability is not called; this covers every entry with an extension whose
  name ignoring the extension is the sanitised name. And if no such entry exists and
  the capability returns leaving one, a first fetch succeeds with a real download and
  a second fetch with the same inputs is skipped: the capability has been called once.
\<close>

theorem skip_if_exists:
  assumes nb: "91 \<notin> set (sanitize_filename custom_title)"
  shows
   "((\<exists>f \<in> set (fs w output_dir). \<exists>ext. f = sanitize_filename custom_title @ [46] @ ext) \<longrightarrow>
       download_video_with_ytdlp dl video_url custom_title output_dir w =
         (\<lparr>success = True, skipped = True, dr_title = sanitize_filename custom_title,
           error = None\<rparr>, w)) \<and>
    ((\<exists>f \<in> set (fs w output_dir). name_ignoring_extension f = sanitize_filename custom_title \<and>
                                   f \<noteq> sanitize_filename custom_title) \<longrightarrow>
       download_video_with_ytdlp dl video_url custom_title output_dir w =
         (\<lparr>success = True, skipped = True, dr_title = sanitize_filename custom_title,
           error = None\<rparr>, w)) \<and>
    (\<not> (\<exists>f \<in> set (fs w output_dir). \<exists>ext. f = sanitize_filename custom_title @ [46] @ ext) \<and>
     dl video_url (path_join output_dir (sanitize_filename custom_title @ u ''.%(ext)s''))
        (fs w output_dir) = (entries, None) \<and>
     sanitize_filename custom_title @ [46] @ ext \<in> set entries \<longrightarrow>
       (let (r1, w1) = download_video_with_ytdlp dl video_url custom_title output_dir w;
            (r2, w2) = download_video_with_ytdlp dl video_url custom_title output_dir w1
        in r1 = \<lparr>success = True, skipped = False, dr_title = sanitize_filename custom_title,
                  error = None\<rparr> \<and>
           r2 = \<lparr>success = True, skipped = True, dr_title = sanitize_filename custom_title,
                  error = None\<rparr> \<and>
           w2 = w1 \<and>
           ydl_calls w2 = ydl_calls w @
             [(video_url, path_join output_dir (sanitize_filename custom_title @ u ''.%(ext)s''))]))"
proof (intro conjI impI)
  let ?base = "sanitize_filename custom_title"
  let ?skip = "(\<lparr>success = True, skipped = True, dr_title = ?base, error = None\<rparr>, w)"
  {
    assume "\<exists>f \<in> set (fs w output_dir). \<exists>ext. f = ?base @ [46] @ ext"
    then have "glob (fs w output_dir) (?base @ u ''.*'') \<noteq> []"
      by (simp only: glob_plain[OF nb])
    then show "download_video_with_ytdlp dl video_url custom_title output_dir w = ?skip"
      by (rule fetch_skip)
  }
  {
    assume "\<exists>f \<in> set (fs w output_dir). name_ignoring_extension f = ?base \<and> f \<noteq> ?base"
    then obtain f where f: "f \<in> set (fs w output_dir)" and s: "name_ignoring_extension f = ?base"
      and n: "f \<noteq> ?base" by blast
    from s n have "name_ignoring_extension f \<noteq> f" by simp
    from name_ignoring_extension_split[OF this] s have "\<exists>ext. f = ?base @ [46] @ ext" by simp
    with f have "\<exists>f \<in> set (fs w output_dir). \<exists>ext. f = ?base @ [46] @ ext" by blast
    then have "glob (fs w output_dir) (?base @ u ''.*'') \<noteq> []"
      by (simp only: glob_plain[OF nb])
    then show "download_video_with_ytdlp dl video_url custom_title output_dir w = ?skip"
      by (rule fetch_skip)
  }
  {
    let ?path = "path_join output_dir (?base @ u ''.%(ext)s'')"
    assume a: "\<not> (\<exists>f \<in> set (fs w output_dir). \<exists>ext. f = ?base @ [46] @ ext) \<and>
       dl video_url ?path (fs w output_dir) = (entries, None) \<and>
       ?base @ [46] @ ext \<in> set entries"
    then have g0: "glob (fs w output_dir) (?base @ u ''.*'') = []"
      using glob_plain[OF nb, of "fs w output_dir"] by blast
    let ?w1 = "w\<lparr>fs := (fs w)(output_dir := entries), ydl_calls := ydl_calls w @ [(video_url, ?path)]\<rparr>"
    have first: "download_video_with_ytdlp dl video_url custom_title output_dir w =
        (\<lparr>success = True, skipped = False, dr_title = ?base, error = None\<rparr>, ?w1)"
      using a by (simp add: fetch_download[OF g0] Let_def)
    have "\<exists>f \<in> set (fs ?w1 output_dir). \<exists>ext. f = ?base @ [46] @ ext" using a by auto
    then have g1: "glob (fs ?w1 output_dir) (?base @ u ''.*'') \<noteq> []"
      by (simp only: glob_plain[OF nb])
    have second: "download_video_with_ytdlp dl video_url custom_title output_dir ?w1 =
        (\<lparr>success = True, skipped = True, dr_title = ?base, error = None\<rparr>, ?w1)"
      using g1 by (rule fetch_skip)
    show "(let (r1, w1) = download_video_with_ytdlp dl video_url custom_title output_dir w;
            (r2, w2) = download_video_with_ytdlp dl video_url custom_title output_dir w1
        in r1 = \<lparr>success = True, skipped = False, dr_title = ?base, error = None\<rparr> \<and>
           r2 = \<lparr>success = True, skipped = True, dr_title = ?base, error = None\<rparr> \<and>
           w2 = w1 \<and> ydl_calls w2 = ydl_calls w @ [(video_url, ?path)])"
      by (simp add: first second)
  }
qed


text \<open>The title \<open>My clip\<close>: skipped when \<open>My clip.mp4\<close> is there; downloaded, then skipped, from an empty folder.\<close>

lemma sanitize_my_clip: "sanitize_filename (u ''My clip'') = u ''My clip''"
  by (simp add: u_def sanitize_filename_def remove_invalid_def invalid_chars_def strip_def is_space_def)

lemma sample_ydl_my_clip:
  "sample_ydl clip_url (path_join (u ''downloads'') (u ''My clip'' @ u ''.%(ext)s'')) []
     = ([u ''My clip.mp4''], None)"
  by (simp add: sample_ydl_def template_file_def path_join_def clip_url_def u_def)


theorem skip_if_exists_witness:
  "91 \<notin> set (sanitize_filename (u ''My clip'')) \<and>
   name_ignoring_extension (u ''My clip.mp4'') = sanitize_filename (u ''My clip'') \<and>
   download_video_with_ytdlp sample_ydl clip_url (u ''My clip'') (u ''downloads'')
       (folder_world (u ''downloads'') [u ''My clip.mp4''])
     = (\<lparr>success = True, skipped = True, dr_title = u ''My clip'', error = None\<rparr>,
        folder_world (u ''downloads'') [u ''My clip.mp4'']) \<and>
   (let (r1, w1) = download_video_with_ytdlp sample_ydl clip_url (u ''My clip'') (u ''downloads'')
                     (folder_world (u ''downloads'') []);
        (r2, w2) = download_video_with_ytdlp sample_ydl clip_url (u ''My clip'') (u ''downloads'') w1
    in r1 = \<lparr>success = True, skipped = False, dr_title = u ''My clip'', error = None\<rparr> \<and>
       r2 = \<lparr>success = True, skipped = True, dr_title = u ''My clip'', error = None\<rparr> \<and>
       ydl_calls w2 = [(clip_url, u ''downloads/My clip.%(ext)s'')])"
proof -
  let ?d = "u ''downloads''" and ?t = "u ''My clip''"
  have nb: "91 \<notin> set (sanitize_filename ?t)" by (simp add: sanitize_my_clip) (simp add: u_def)
  have st: "name_ignoring_extension (u ''My clip.mp4'') = sanitize_filename ?t"
    by (simp add: sanitize_my_clip) (simp add: name_ignoring_extension_def u_def)
  have h2: "\<exists>f \<in> set (fs (folder_world ?d [u ''My clip.mp4'']) ?d).
              name_ignoring_extension f = sanitize_filename ?t \<and> f \<noteq> sanitize_filename ?t"
    using st by (simp add: folder_world_def sanitize_my_clip) (simp add: u_def)
  have h1: "\<exists>f \<in> set (fs (folder_world ?d [u ''My clip.mp4'']) ?d).
              \<exists>ext. f = sanitize_filename ?t @ [46] @ ext"
    by (simp add: folder_world_def sanitize_my_clip) (simp add: u_def)
  from skip_if_exists[OF nb, where w = "folder_world ?d [u ''My clip.mp4'']" and output_dir = ?d
      and dl = sample_ydl and video_url = clip_url] h1 h2
  have c1: "download_video_with_ytdlp sample_ydl clip_url ?t ?d (folder_world ?d [u ''My clip.mp4''])
     = (\<lparr>success = True, skipped = True, dr_title = sanitize_filename ?t, error = None\<rparr>,
        folder_world ?d [u ''My clip.mp4''])"
    by blast
  have h3: "\<not> (\<exists>f \<in> set (fs (folder_world ?d []) ?d). \<exists>ext. f = sanitize_filename ?t @ [46] @ ext) \<and>
     sample_ydl clip_url (path_join ?d (sanitize_filename ?t @ u ''.%(ext)s'')) (fs (folder_world ?d []) ?d)
       = ([u ''My clip.mp4''], None) \<and>
     sanitize_filename ?t @ [46] @ u ''mp4'' \<in> set [u ''My clip.mp4'']"
    using sample_ydl_my_clip by (simp add: folder_world_def sanitize_my_clip) (simp add: u_def)
  from skip_if_exists[OF nb, where w = "folder_world ?d []" and output_dir = ?d
      and dl = sample_ydl and video_url = clip_url and entries = "[u ''My clip.mp4'']"
      and ext = "u ''mp4''"] h3
  have c3: "(let (r1, w1) = download_video_with_ytdlp sample_ydl clip_url ?t ?d (folder_world ?d []);
            (r2, w2) = download_video_with_ytdlp sample_ydl clip_url ?t ?d w1
        in r1 = \<lparr>success = True, skipped = False, dr_title = sanitize_filename ?t, error = None\<rparr> \<and>
           r2 = \<lparr>success = True, skipped = True, dr_title = sanitize_filename ?t, error = None\<rparr> \<and>
           w2 = w1 \<and>
           ydl_calls w2 = ydl_calls (folder_world ?d []) @
             [(clip_url, path_join ?d (sanitize_filename ?t @ u ''.%(ext)s''))])"
    by blast
  have p: "path_join ?d (?t @ u ''.%(ext)s'') = u ''downloads/My clip.%(ext)s''"
    by (simp add: path_join_def u_def)
  have e: "ydl_calls (folder_world ?d []) = []" by (simp add: folder_world_def)
  from c3 have c3': "(let (r1, w1) = download_video_with_ytdlp sample_ydl clip_url ?t ?d (folder_world ?d []);
            (r2, w2) = download_video_with_ytdlp sample_ydl clip_url ?t ?d w1
        in r1 = \<lparr>success = True, skipped = False, dr_title = ?t, error = None\<rparr> \<and>
           r2 = \<lparr>success = True, skipped = True, dr_title = ?t, error = None\<rparr> \<and>
           ydl_calls w2 = [(clip_url, u ''downloads/My clip.%(ext)s'')])"
    unfolding sanitize_my_clip p e by (auto simp: Let_def split: prod.splits)
  show ?thesis using nb st c1 c3' unfolding sanitize_my_clip by blast
qed


text \<open>
  A folder that holds the entry \<open>clip\<close>, without extension: its name ignoring the
  extension is the sanitised title \<open>clip\<close>, but the pattern \<open>clip.*\<close> asks for a dot, so
  the fetch is not skipped and the capability is called.
\<close>

lemma sanitize_clip: "sanitize_filename (u ''clip'') = u ''clip''"
  by (simp add: u_def sanitize_filename_def remove_invalid_def invalid_chars_def strip_def is_space_def)

lemma glob_clip: "glob [u ''clip''] (u ''clip'' @ u ''.*'') = []"
  by (simp add: glob_def fnmatch_def u_def)

theorem extensionless_file_not_skipped:
  "name_ignoring_extension (u ''clip'') = sanitize_filename (u ''clip'') \<and>
   fs (folder_world (u ''downloads'') [u ''clip'']) (u ''downloads'') = [u ''clip''] \<and>
   fst (download_video_with_ytdlp sample_ydl clip_url (u ''clip'') (u ''downloads'')
          (folder_world (u ''downloads'') [u ''clip'']))
     = \<lparr>success = True, skipped = False, dr_title = u ''clip'', error = None\<rparr> \<and>
   ydl_calls (snd (download_video_with_ytdlp sample_ydl clip_url (u ''clip'') (u ''downloads'')
          (folder_world (u ''downloads'') [u ''clip''])))
     = [(clip_url, u ''downloads/clip.%(ext)s'')]"
proof -
  have g: "glob (fs (folder_world (u ''downloads'') [u ''clip'']) (u ''downloads''))
             (sanitize_filename (u ''clip'') @ u ''.*'') = []"
    by (simp add: folder_world_def sanitize_clip glob_clip)
  have s: "name_ignoring_extension (u ''clip'') = sanitize_filename (u ''clip'')"
    by (simp add: sanitize_clip) (simp add: name_ignoring_extension_def u_def)
  have p: "path_join (u ''downloads'') (u ''clip'' @ u ''.%(ext)s'') = u ''downloads/clip.%(ext)s''"
    by (simp add: path_join_def u_def)
  have d: "sample_ydl clip_url (u ''downloads/clip.%(ext)s'') [u ''clip'']
             = ([u ''clip'', u ''clip.mp4''], None)"
    by (simp add: sample_ydl_def template_file_def clip_url_def u_def)
  show ?thesis
    by (simp add: fetch_download[OF g] s sanitize_clip p Let_def)
       (simp add: folder_world_def d)
qed


text \<open>
  The sanitised title goes into the pattern as it is. In \<open>a[b].*\<close> the brackets form a
  set, which matches the one character \<open>b\<close>: the file \<open>a[b].mp4\<close> that an earlier
  download left does not match, and the video is downloaded again.
\<close>

lemma sanitize_bracket: "sanitize_filename (u ''a[b]'') = u ''a[b]''"
  by (simp add: u_def sanitize_filename_def remove_invalid_def invalid_chars_def strip_def is_space_def)

lemma glob_bracket: "glob [u ''a[b].mp4''] (u ''a[b]'' @ u ''.*'') = []"
  by (simp add: glob_def fnmatch_def u_def bracket_end_def char_class_def in_class_def)

theorem bracket_title_not_skipped:
  "name_ignoring_extension (u ''a[b].mp4'') = sanitize_filename (u ''a[b]'') \<and>
   fst (download_video_with_ytdlp sample_ydl clip_url (u ''a[b]'') (u ''downloads'')
          (folder_world (u ''downloads'') [u ''a[b].mp4'']))
     = \<lparr>success = True, skipped = False, dr_title = u ''a[b]'', error = None\<rparr> \<and>
   ydl_calls (snd (download_video_with_ytdlp sample_ydl clip_url (u ''a[b]'') (u ''downloads'')
          (folder_world (u ''downloads'') [u ''a[b].mp4''])))
     = [(clip_url, u ''downloads/a[b].%(ext)s'')]"
proof -
  have g: "glob (fs (folder_world (u ''downloads'') [u ''a[b].mp4'']) (u ''downloads''))
             (sanitize_filename (u ''a[b]'') @ u ''.*'') = []"
    by (simp add: folder_world_def sanitize_bracket glob_bracket)
  have s: "name_ignoring_extension (u ''a[b].mp4'') = sanitize_filename (u ''a[b]'')"
    by (simp add: sanitize_bracket) (simp add: name_ignoring_extension_def u_def)
  have p: "path_join (u ''downloads'') (u ''a[b]'' @ u ''.%(ext)s'') = u ''downloads/a[b].%(ext)s''"
    by (simp add: path_join_def u_def)
  have d: "sample_ydl clip_url (u ''downloads/a[b].%(ext)s'') [u ''a[b].mp4'']
             = ([u ''a[b].mp4'', u ''a[b].mp4''], None)"
    by (simp add: sample_ydl_def template_file_def clip_url_def u_def)
  show ?thesis
    by (simp add: fetch_download[OF g] s sanitize_bracket p Let_def)
       (simp add: folder_world_def d)
qed

section \<open>Properties of the download loop\<close>

lemma download_loop_Cons:
  "download_loop dl cfg folder (v # vs) st =
     (let r = fst (download_video_with_ytdlp dl (url v) (title v) folder (lw st));
          w' = snd (download_video_with_ytdlp dl (url v) (title v) folder (lw st))
      in if success r then
           (if skipped r
            then download_loop dl cfg folder vs (st\<lparr>skipped_count := skipped_count st + 1, lw := w'\<rparr>)
            else download_loop dl cfg folder vs (st\<lparr>success_count := success_count st + 1, lw := w'\<rparr>))
         else
           (if \<not> continue_on_error cfg
            then st\<lparr>fail_count := fail_count st + 1, lw := w', stopped := True\<rparr>
            else download_loop dl cfg folder vs (st\<lparr>fail_count := fail_count st + 1, lw := w'\<rparr>)))"
  by (simp add: Let_def split: prod.splits)

lemma loop_counts:
  "(stopped st \<longrightarrow> stopped (download_loop dl cfg folder vs st)) \<and>
   (\<not> stopped (download_loop dl cfg folder vs st) \<longrightarrow>
      attempts (download_loop dl cfg folder vs st) = attempts st + length vs \<and>
      (\<not> continue_on_error cfg \<longrightarrow> fail_count (download_loop dl cfg folder vs st) = fail_count st)) \<and>
   (stopped (download_loop dl cfg folder vs st) \<and> \<not> stopped st \<longrightarrow>
      \<not> continue_on_error cfg \<and>
      fail_count (download_loop dl cfg folder vs st) = fail_count st + 1 \<and>
      attempts st + 1 \<le> attempts (download_loop dl cfg folder vs st) \<and>
      attempts (download_loop dl cfg folder vs st) \<le> attempts st + length vs)"
proof (induction vs arbitrary: st)
  case Nil
  show ?case by simp
next
  case (Cons v vs)
  let ?r = "fst (download_video_with_ytdlp dl (url v) (title v) folder (lw st))"
  let ?w = "snd (download_video_with_ytdlp dl (url v) (title v) folder (lw st))"
  consider (skip) "success ?r" "skipped ?r" | (ok) "success ?r" "\<not> skipped ?r"
    | (stop) "\<not> success ?r" "\<not> continue_on_error cfg"
    | (go) "\<not> success ?r" "continue_on_error cfg" by blast
  then show ?case
  proof cases
    case skip
    let ?st1 = "st\<lparr>skipped_count := skipped_count st + 1, lw := ?w\<rparr>"
    have eq: "download_loop dl cfg folder (v # vs) st = download_loop dl cfg folder vs ?st1"
      using skip by (simp add: download_loop_Cons Let_def del: download_loop.simps)
    show ?thesis unfolding eq using Cons.IH[of ?st1] by (auto simp: attempts_def)
  next
    case ok
    let ?st1 = "st\<lparr>success_count := success_count st + 1, lw := ?w\<rparr>"
    have eq: "download_loop dl cfg folder (v # vs) st = download_loop dl cfg folder vs ?st1"
      using ok by (simp add: download_loop_Cons Let_def del: download_loop.simps)
    show ?thesis unfolding eq using Cons.IH[of ?st1] by (auto simp: attempts_def)
  next
    case stop
    have eq: "download_loop dl cfg folder (v # vs) st
                = st\<lparr>fail_count := fail_count st + 1, lw := ?w, stopped := True\<rparr>"
      using stop by (simp add: download_loop_Cons Let_def del: download_loop.simps)
    show ?thesis unfolding eq using stop by (simp add: attempts_def)
  next
    case go
    let ?st1 = "st\<lparr>fail_count := fail_count st + 1, lw := ?w\<rparr>"
    have eq: "download_loop dl cfg folder (v # vs) st = download_loop dl cfg folder vs ?st1"
      using go by (simp add: download_loop_Cons Let_def del: download_loop.simps)
    show ?thesis unfolding eq using Cons.IH[of ?st1] go by (auto simp: attempts_def)
  qed
qed

lemma download_loop_append:
  "\<not> stopped (download_loop dl cfg folder xs st) \<Longrightarrow>
   download_loop dl cfg folder (xs @ ys) st
     = download_loop dl cfg folder ys (download_loop dl cfg folder xs st)"
proof (induction xs arbitrary: st)
  case Nil
  show ?case by simp
next
  case (Cons v vs)
  let ?r = "fst (download_video_with_ytdlp dl (url v) (title v) folder (lw st))"
  let ?w = "snd (download_video_with_ytdlp dl (url v) (title v) folder (lw st))"
  consider (skip) "success ?r" "skipped ?r" | (ok) "success ?r" "\<not> skipped ?r"
    | (stop) "\<not> success ?r" "\<not> continue_on_error cfg"
    | (go) "\<not> success ?r" "continue_on_error cfg" by blast
  then show ?case
  proof cases
    case skip
    let ?st1 = "st\<lparr>skipped_count := skipped_count st + 1, lw := ?w\<rparr>"
    have eq: "\<And>zs. download_loop dl cfg folder (v # zs) st = download_loop dl cfg folder zs ?st1"
      using skip by (simp add: download_loop_Cons Let_def del: download_loop.simps)
    from Cons.prems have "\<not> stopped (download_loop dl cfg folder vs ?st1)" by (simp add: eq del: download_loop.simps)
    from Cons.IH[OF this] show ?thesis by (simp only: eq append_Cons)
  next
    case ok
    let ?st1 = "st\<lparr>success_count := success_count st + 1, lw := ?w\<rparr>"
    have eq: "\<And>zs. download_loop dl cfg folder (v # zs) st = download_loop dl cfg folder zs ?st1"
      using ok by (simp add: download_loop_Cons Let_def del: download_loop.simps)
    from Cons.prems have "\<not> stopped (download_loop dl cfg folder vs ?st1)" by (simp add: eq del: download_loop.simps)
    from Cons.IH[OF this] show ?thesis by (simp only: eq append_Cons)
  next
    case stop
    have "download_loop dl cfg folder (v # vs) st
                = st\<lparr>fail_count := fail_count st + 1, lw := ?w, stopped := True\<rparr>"
      using stop by (simp add: download_loop_Cons Let_def del: download_loop.simps)
    with Cons.prems show ?thesis by (simp del: download_loop.simps)
  next
    case go
    let ?st1 = "st\<lparr>fail_count := fail_count st + 1, lw := ?w\<rparr>"
    have eq: "\<And>zs. download_loop dl cfg folder (v # zs) st = download_loop dl cfg folder zs ?st1"
      using go by (simp add: download_loop_Cons Let_def del: download_loop.simps)
    from Cons.prems have "\<not> stopped (download_loop dl cfg folder vs ?st1)" by (simp add: eq del: download_loop.simps)
    from Cons.IH[OF this] show ?thesis by (simp only: eq append_Cons)
  qed
qed


lemma loop_from_init:
  "attempts (download_loop dl cfg folder vs (loop_init w)) \<le> length vs \<and>
   (\<not> stopped (download_loop dl cfg folder vs (loop_init w)) \<longrightarrow>
      attempts (download_loop dl cfg folder vs (loop_init w)) = length vs \<and>
      (\<not> continue_on_error cfg \<longrightarrow> fail_count (download_loop dl cfg folder vs (loop_init w)) = 0)) \<and>
   (stopped (download_loop dl cfg folder vs (loop_init w)) \<longrightarrow>
      \<not> continue_on_error cfg \<and> fail_count (download_loop dl cfg folder vs (loop_init w)) = 1)"
  using loop_counts[of "loop_init w" dl cfg folder vs]
  by (auto simp: loop_init_def attempts_def)




text \<open>
  Claim C8. With \<open>continue_on_error\<close> off, let the loop reach the video at index \<open>k\<close>
  (position \<open>k + 1\<close>) and let its fetch fail. Then the run over the whole list is the
  run over its first \<open>k + 1\<close> videos: the world it ends in is the one right after
  that fetch, so no later video is attempted. The loop is left by \<open>break\<close> with one
  failure counted and \<open>k\<close> videos downloaded or skipped, and the summary built from it
  counts \<open>k + 1\<close> videos.
\<close>

theorem stop_on_error:
  assumes nc: "\<not> continue_on_error cfg" and k: "k < length videos"
    and reach: "\<not> stopped (download_loop dl cfg folder (take k videos) (loop_init w))"
    and fails: "\<not> success (fst (download_video_with_ytdlp dl (url (videos ! k)) (title (videos ! k))
                   folder (lw (download_loop dl cfg folder (take k videos) (loop_init w)))))"
  shows "download_loop dl cfg folder videos (loop_init w)
           = download_loop dl cfg folder (take (Suc k) videos) (loop_init w) \<and>
         stopped (download_loop dl cfg folder videos (loop_init w)) \<and>
         fail_count (download_loop dl cfg folder videos (loop_init w)) = 1 \<and>
         success_count (download_loop dl cfg folder videos (loop_init w)) +
           skipped_count (download_loop dl cfg folder videos (loop_init w)) = k \<and>
         lw (download_loop dl cfg folder videos (loop_init w))
           = snd (download_video_with_ytdlp dl (url (videos ! k)) (title (videos ! k)) folder
                    (lw (download_loop dl cfg folder (take k videos) (loop_init w)))) \<and>
         r_success_count (summary_of info (download_loop dl cfg folder videos (loop_init w))
                            videos folder order) +
           r_skipped_count (summary_of info (download_loop dl cfg folder videos (loop_init w))
                            videos folder order) +
           r_fail_count (summary_of info (download_loop dl cfg folder videos (loop_init w))
                            videos folder order) = Suc k"
proof -
  let ?stk = "download_loop dl cfg folder (take k videos) (loop_init w)"
  let ?v = "videos ! k"
  let ?w = "snd (download_video_with_ytdlp dl (url ?v) (title ?v) folder (lw ?stk))"
  let ?end = "?stk\<lparr>fail_count := fail_count ?stk + 1, lw := ?w, stopped := True\<rparr>"
  have step: "\<And>rest. download_loop dl cfg folder (?v # rest) ?stk = ?end"
    using nc fails by (simp add: download_loop_Cons Let_def del: download_loop.simps)
  have v1: "videos = take k videos @ ?v # drop (Suc k) videos"
    using k by (simp add: id_take_nth_drop)
  have v2: "take (Suc k) videos = take k videos @ [?v]"
    using k by (simp add: take_Suc_conv_app_nth)
  have "download_loop dl cfg folder (take k videos @ ?v # drop (Suc k) videos) (loop_init w)
          = download_loop dl cfg folder (?v # drop (Suc k) videos) ?stk"
    using reach by (rule download_loop_append)
  then have full: "download_loop dl cfg folder videos (loop_init w) = ?end"
    using v1 step by simp
  have "download_loop dl cfg folder (take k videos @ [?v]) (loop_init w)
          = download_loop dl cfg folder [?v] ?stk"
    using reach by (rule download_loop_append)
  then have part: "download_loop dl cfg folder (take (Suc k) videos) (loop_init w) = ?end"
    using v2 step by simp
  from loop_from_init[of dl cfg folder "take k videos" w] reach nc k
  have cnt: "attempts ?stk = k" and f0: "fail_count ?stk = 0" by auto
  show ?thesis
    unfolding full part using cnt f0 by (simp add: attempts_def summary_of_def)
qed


section \<open>The example playlist\<close>

lemma discover_const: "discover None (\<lambda>j. n) =
  \<lparr>previous_count = n, current_count = n, scroll_attempts = 11,
    no_change_count = (if n = 0 then 0 else 10)\<rparr> \<or> n = 0"
  by (simp add: discover_def scroll_loop.simps scroll_step_def scroll_init_def limit_reached_def
      max_scroll_attempts_def max_no_change_attempts_def)

lemma metadata_sample: "extract_playlist_metadata (sample_page es) = sample_info"
  by (simp add: extract_playlist_metadata_def sample_page_def title_selectors_def
      channel_selectors_def sample_info_def u_def)

lemma extract_five: "extract_videos five_elements =
   [sample_video (u ''one'') (u ''/watch?v=a1'') 1 None,
    sample_video (u ''two'') (u ''/watch?v=a2'') 2 None,
    sample_video (u ''three'') (u ''/watch?v=bad'') 3 None,
    sample_video (u ''four'') (u ''/watch?v=a4'') 4 None,
    sample_video (u ''five'') (u ''/watch?v=a5'') 5 None]"
  by (simp add: extract_videos_def five_elements_def sample_element_def extract_video_def
      List.map_filter_simps sample_video_def strip_def is_space_def u_def)


lemmas eval_defs = download_video_with_ytdlp_def sanitize_filename_def remove_invalid_def
  invalid_chars_def strip_def is_space_def glob_def fnmatch_def path_join_def sample_ydl_def
  template_file_def folder_world_def loop_init_def sample_video_def u_def Let_def

lemma loop_two:
  "download_loop sample_ydl cfg (u ''d'') (take 2 five_videos) (loop_init (folder_world (u ''d'') []))
   = \<lparr>success_count = 2, fail_count = 0, skipped_count = 0, stopped = False,
      lw = \<lparr>fs = (\<lambda>d. if d = u ''d'' then [u ''one.mp4'', u ''two.mp4''] else []),
             json_files = (\<lambda>p. None),
             ydl_calls = [(u ''/watch?v=a1'', u ''d/one.%(ext)s''), (u ''/watch?v=a2'', u ''d/two.%(ext)s'')]\<rparr>\<rparr>"
  by (simp add: five_videos_def eval_defs fun_eq_iff)

lemma fetch_three:
  "fst (download_video_with_ytdlp sample_ydl (url (five_videos ! 2)) (title (five_videos ! 2)) (u ''d'')
      \<lparr>fs = (\<lambda>d. if d = u ''d'' then [u ''one.mp4'', u ''two.mp4''] else []),
             json_files = (\<lambda>p. None),
             ydl_calls = [(u ''/watch?v=a1'', u ''d/one.%(ext)s''), (u ''/watch?v=a2'', u ''d/two.%(ext)s'')]\<rparr>)
   = \<lparr>success = False, skipped = False, dr_title = u ''three'', error = Some (u ''ERROR: Video unavailable'')\<rparr>"
  by (simp add: five_videos_def eval_defs)

lemma loop_five_stop:
  "download_loop sample_ydl stop_config (u ''d'') five_videos (loop_init (folder_world (u ''d'') []))
   = \<lparr>success_count = 2, fail_count = 1, skipped_count = 0, stopped = True,
      lw = \<lparr>fs = (\<lambda>d. if d = u ''d'' then [u ''one.mp4'', u ''two.mp4''] else []),
             json_files = (\<lambda>p. None),
             ydl_calls = [(u ''/watch?v=a1'', u ''d/one.%(ext)s''), (u ''/watch?v=a2'', u ''d/two.%(ext)s''),
                          (u ''/watch?v=bad'', u ''d/three.%(ext)s'')]\<rparr>\<rparr>"
  by (simp add: five_videos_def eval_defs fun_eq_iff stop_config_def default_config_def)



lemma playlist_five_stop:
  "fst (download_playlist (sample_env five_elements) stop_config playlist_url1 (folder_world (u ''downloads'') []))
   = Some \<lparr>r_playlist_info = sample_info, r_success_count = 2, r_skipped_count = 0,
            r_fail_count = 1, r_total_videos = 5,
            r_playlist_folder = u ''downloads/Playlist_PL1'', r_sort_order = ''playlist''\<rparr>"
proof -
  have d: "discover None (\<lambda>j. 5) = \<lparr>previous_count = 5, current_count = 5, scroll_attempts = 11,
    no_change_count = 10\<rparr>"
    using discover_const[of 5] by simp
  have l: "length five_elements = 5" by (simp add: five_elements_def)
  have e: "extract_playlist_urls (sample_page five_elements) None = Inr (sample_info, extract_videos five_elements)"
    using metadata_sample[of five_elements]
    by (simp add: extract_playlist_urls_def Let_def) (simp add: sample_page_def l d)
  show ?thesis
    by (simp add: download_playlist_def sample_env_def e extract_five stop_config_def default_config_def
          sort_videos_def assign_download_index_def prepare_folder_def sample_info_def
          mkdir_def add_entry_def summary_of_def metadata_of_def eval_defs)
qed



text \<open>
  Five videos, the third failing, \<open>continue_on_error\<close> off: two downloads, one failure,
  the capability called three times, and a summary of 2 succeeded, 0 skipped, 1 failed
  out of 5.
\<close>

theorem stop_on_error_witness:
  "\<not> continue_on_error stop_config \<and> (2::nat) < length five_videos \<and>
   \<not> stopped (download_loop sample_ydl stop_config (u ''d'') (take 2 five_videos)
                 (loop_init (folder_world (u ''d'') []))) \<and>
   download_loop sample_ydl stop_config (u ''d'') five_videos (loop_init (folder_world (u ''d'') []))
     = download_loop sample_ydl stop_config (u ''d'') (take 3 five_videos)
         (loop_init (folder_world (u ''d'') [])) \<and>
   stopped (download_loop sample_ydl stop_config (u ''d'') five_videos
              (loop_init (folder_world (u ''d'') []))) \<and>
   success_count (download_loop sample_ydl stop_config (u ''d'') five_videos
              (loop_init (folder_world (u ''d'') []))) = 2 \<and>
   skipped_count (download_loop sample_ydl stop_config (u ''d'') five_videos
              (loop_init (folder_world (u ''d'') []))) = 0 \<and>
   fail_count (download_loop sample_ydl stop_config (u ''d'') five_videos
              (loop_init (folder_world (u ''d'') []))) = 1 \<and>
   map fst (ydl_calls (lw (download_loop sample_ydl stop_config (u ''d'') five_videos
              (loop_init (folder_world (u ''d'') [])))))
     = [u ''/watch?v=a1'', u ''/watch?v=a2'', u ''/watch?v=bad''] \<and>
   fst (download_playlist (sample_env five_elements) stop_config playlist_url1
          (folder_world (u ''downloads'') []))
     = Some \<lparr>r_playlist_info = sample_info, r_success_count = 2, r_skipped_count = 0,
              r_fail_count = 1, r_total_videos = 5,
              r_playlist_folder = u ''downloads/Playlist_PL1'', r_sort_order = ''playlist''\<rparr>"
proof -
  let ?w = "folder_world (u ''d'') []"
  have nc: "\<not> continue_on_error stop_config" by (simp add: stop_config_def)
  have k: "(2::nat) < length five_videos" by (simp add: five_videos_def)
  have reach: "\<not> stopped (download_loop sample_ydl stop_config (u ''d'') (take 2 five_videos) (loop_init ?w))"
    by (simp only: loop_two) simp
  have fails: "\<not> success (fst (download_video_with_ytdlp sample_ydl (url (five_videos ! 2))
                   (title (five_videos ! 2)) (u ''d'')
                   (lw (download_loop sample_ydl stop_config (u ''d'') (take 2 five_videos) (loop_init ?w)))))"
    by (simp only: loop_two) (simp add: fetch_three)
  from stop_on_error[OF nc k reach fails]
  have a: "download_loop sample_ydl stop_config (u ''d'') five_videos (loop_init ?w)
             = download_loop sample_ydl stop_config (u ''d'') (take (Suc 2) five_videos) (loop_init ?w)"
    and b: "stopped (download_loop sample_ydl stop_config (u ''d'') five_videos (loop_init ?w))"
    and c: "fail_count (download_loop sample_ydl stop_config (u ''d'') five_videos (loop_init ?w)) = 1"
    by blast+
  have a': "download_loop sample_ydl stop_config (u ''d'') five_videos (loop_init ?w)
             = download_loop sample_ydl stop_config (u ''d'') (take 3 five_videos) (loop_init ?w)"
    using a by (simp only: eval_nat_numeral)
  have d: "success_count (download_loop sample_ydl stop_config (u ''d'') five_videos (loop_init ?w)) = 2"
    by (simp add: loop_five_stop)
  have e: "skipped_count (download_loop sample_ydl stop_config (u ''d'') five_videos (loop_init ?w)) = 0"
    by (simp add: loop_five_stop)
  have f: "map fst (ydl_calls (lw (download_loop sample_ydl stop_config (u ''d'') five_videos (loop_init ?w))))
     = [u ''/watch?v=a1'', u ''/watch?v=a2'', u ''/watch?v=bad'']"
    by (simp add: loop_five_stop)
  show ?thesis
    by (intro conjI) (fact nc k reach a' b c d e f playlist_five_stop)+
qed


lemma extract_sample:
  "length es = n \<Longrightarrow> 0 < n \<Longrightarrow>
   extract_playlist_urls (sample_page es) None = Inr (sample_info, extract_videos es)"
  using metadata_sample[of es] discover_const[of n]
  by (simp add: extract_playlist_urls_def Let_def) (simp add: sample_page_def)

lemma extract_one_bad: "extract_videos one_bad_element = [sample_video (u ''three'') (u ''/watch?v=bad'') 1 None]"
  by (simp add: extract_videos_def one_bad_element_def sample_element_def extract_video_def
      List.map_filter_simps sample_video_def strip_def is_space_def u_def)

lemmas playlist_defs = download_playlist_def sample_env_def default_config_def
          sort_videos_def assign_download_index_def prepare_folder_def sample_info_def
          mkdir_def add_entry_def summary_of_def metadata_of_def

lemma playlist_five_go:
  "fst (download_playlist (sample_env five_elements) default_config playlist_url1 (folder_world (u ''downloads'') []))
   = Some \<lparr>r_playlist_info = sample_info, r_success_count = 4, r_skipped_count = 0,
            r_fail_count = 1, r_total_videos = 5,
            r_playlist_folder = u ''downloads/Playlist_PL1'', r_sort_order = ''playlist''\<rparr>"
proof -
  have e: "extract_playlist_urls (sample_page five_elements) None = Inr (sample_info, extract_videos five_elements)"
    by (rule extract_sample[of _ 5]) (simp_all add: five_elements_def)
  show ?thesis
    by (simp add: e extract_five playlist_defs eval_defs)
qed







section \<open>Properties of the playlist and batch runs\<close>

lemma metadata_count_zero: "total_videos (extract_playlist_metadata p) = 0"
  by (simp add: extract_playlist_metadata_def Let_def)

lemma extract_info:
  "extract_playlist_urls p mv = Inr (info, found) \<Longrightarrow> info = extract_playlist_metadata p"
  by (auto simp: extract_playlist_urls_def Let_def split: option.splits)

lemma fetch_json:
  "json_files (snd (download_video_with_ytdlp dl video_url custom_title output_dir w)) = json_files w"
  by (simp add: download_video_with_ytdlp_def Let_def split: prod.splits option.splits)

lemma loop_json: "json_files (lw (download_loop dl cfg folder vs st)) = json_files (lw st)"
proof (induction vs arbitrary: st)
  case Nil show ?case by simp
next
  case (Cons v vs)
  show ?case
    by (simp only: download_loop_Cons Let_def) (simp add: Cons.IH fetch_json)
qed

lemma length_assign: "length (assign_download_index vs) = length vs"
  by (simp add: assign_download_index_def)

lemma length_sort: "length (sort_videos order vs) = length vs"
  by (simp add: sort_videos_def)

lemma prepare_folder_json:
  "create_playlist_folder cfg \<Longrightarrow>
   json_files (snd (prepare_folder e cfg playlist_url info vs w))
     (path_join (fst (prepare_folder e cfg playlist_url info vs w)) (u ''playlist_info.json''))
   = Some (metadata_of info playlist_url vs (now e) (sort_order cfg))"
  by (simp add: prepare_folder_def Let_def)

lemma playlist_summary:
  assumes "download_playlist e cfg playlist_url w = (Some s, w')"
  shows "\<exists>found. extract_playlist_urls (browse e playlist_url) (max_videos cfg)
                  = Inr (extract_playlist_metadata (browse e playlist_url), found) \<and>
           found \<noteq> [] \<and>
           r_playlist_info s = extract_playlist_metadata (browse e playlist_url) \<and>
           r_total_videos s = length found \<and>
           (create_playlist_folder cfg \<longrightarrow>
              map_option mf_total_videos
                (json_files w' (path_join (r_playlist_folder s) (u ''playlist_info.json'')))
              = Some (length found))"
proof -
  from assms obtain info found where
    ex: "extract_playlist_urls (browse e playlist_url) (max_videos cfg) = Inr (info, found)"
    by (auto simp: download_playlist_def split: sum.splits)
  have info: "info = extract_playlist_metadata (browse e playlist_url)"
    using ex by (rule extract_info)
  let ?vs = "assign_download_index (sort_videos (sort_order cfg) found)"
  let ?pf = "prepare_folder e cfg playlist_url info ?vs w"
  let ?st = "download_loop (ydl e) cfg (fst ?pf) ?vs (loop_init (snd ?pf))"
  from assms ex have ne: "found \<noteq> []"
    by (auto simp: download_playlist_def split: if_splits)
  from assms ex ne have s: "s = summary_of info ?st ?vs (fst ?pf) (sort_order cfg)"
    and w': "w' = lw ?st"
    by (auto simp: download_playlist_def Let_def split: prod.splits)
  have len: "length ?vs = length found" by (simp add: length_assign length_sort)
  have j: "create_playlist_folder cfg \<longrightarrow>
            map_option mf_total_videos
              (json_files w' (path_join (r_playlist_folder s) (u ''playlist_info.json'')))
            = Some (length found)"
  proof
    assume c: "create_playlist_folder cfg"
    have "json_files w' = json_files (snd ?pf)"
      by (simp add: w' loop_json loop_init_def)
    moreover have "r_playlist_folder s = fst ?pf" by (simp add: s summary_of_def)
    ultimately show "map_option mf_total_videos
              (json_files w' (path_join (r_playlist_folder s) (u ''playlist_info.json'')))
            = Some (length found)"
      using prepare_folder_json[OF c, of e playlist_url info ?vs w] len
      by (simp add: metadata_of_def)
  qed
  from ex info ne s len j show ?thesis by (auto simp: summary_of_def)
qed

lemma batch_loop_entries:
  "set (map entry_info_count (results st)) \<subseteq> {Some 0} \<Longrightarrow>
   set (map entry_info_count (results (batch_loop (run_playlist e cfg) cfg' urls st))) \<subseteq> {Some 0} \<and>
   total_playlists_failed (batch_loop (run_playlist e cfg) cfg' urls st) = total_playlists_failed st"
proof (induction urls arbitrary: st)
  case Nil
  then show ?case by simp
next
  case (Cons x xs)
  obtain r w' where d: "download_playlist e cfg x (bw st) = (r, w')" by (cases "download_playlist e cfg x (bw st)")
  show ?case
  proof (cases r)
    case None
    with d have "batch_loop (run_playlist e cfg) cfg' (x # xs) st
                 = batch_loop (run_playlist e cfg) cfg' xs (st\<lparr>bw := w'\<rparr>)"
      by (simp add: run_playlist_def)
    moreover have "set (map entry_info_count (results (st\<lparr>bw := w'\<rparr>))) \<subseteq> {Some 0}"
      using Cons.prems by simp
    ultimately show ?thesis using Cons.IH[of "st\<lparr>bw := w'\<rparr>"] by simp
  next
    case (Some s)
    let ?st1 = "st\<lparr>results := results st @
                   [PlaylistDone x (r_playlist_info s) (r_success_count s)
                      (r_skipped_count s) (r_fail_count s) (r_total_videos s)
                      (r_playlist_folder s)],
                 total_success := total_success st + r_success_count s,
                 total_skipped := total_skipped st + r_skipped_count s,
                 total_failed := total_failed st + r_fail_count s,
                 bw := w'\<rparr>"
    from d Some have eq: "batch_loop (run_playlist e cfg) cfg' (x # xs) st
                 = batch_loop (run_playlist e cfg) cfg' xs ?st1"
      by (simp add: run_playlist_def)
    from d Some playlist_summary[of e cfg x "bw st" s w']
    have "total_videos (r_playlist_info s) = 0" by (auto simp: metadata_count_zero)
    then have p: "set (map entry_info_count (results ?st1)) \<subseteq> {Some 0}"
      using Cons.prems by simp
    have f: "total_playlists_failed ?st1 = total_playlists_failed st" by simp
    from Cons.IH[OF p] show ?thesis unfolding eq f by blast
  qed
qed


text \<open>
  Claim C10. The playlist metadata that extraction returns has \<open>total_videos = 0\<close>,
  whatever was discovered, and so has the metadata in every summary of
  \<open>download_playlist\<close> and in every entry of the batch results. The number of videos
  found is the \<open>total_videos\<close> field of the summary itself, and of the metadata file
  when the playlist folder is created.
\<close>

theorem playlist_info_count_zero:
  "total_videos (extract_playlist_metadata p) = 0 \<and>
   (extract_playlist_urls p mv = Inr (info, found) \<longrightarrow> total_videos info = 0) \<and>
   (download_playlist e cfg playlist_url w = (Some s, w') \<longrightarrow>
      total_videos (r_playlist_info s) = 0 \<and>
      (\<exists>found'. extract_playlist_urls (browse e playlist_url) (max_videos cfg)
                   = Inr (r_playlist_info s, found') \<and>
                 0 < length found' \<and> r_total_videos s = length found' \<and>
                 (create_playlist_folder cfg \<longrightarrow>
                    map_option mf_total_videos
                      (json_files w' (path_join (r_playlist_folder s) (u ''playlist_info.json'')))
                    = Some (length found')))) \<and>
   set (map entry_info_count (b_results (fst (download_multiple_playlists e cfg urls w))))
     \<subseteq> {Some 0}"
proof (intro conjI impI)
  show "total_videos (extract_playlist_metadata p) = 0" by (rule metadata_count_zero)
next
  assume "extract_playlist_urls p mv = Inr (info, found)"
  then show "total_videos info = 0" using extract_info metadata_count_zero by blast
next
  assume a: "download_playlist e cfg playlist_url w = (Some s, w')"
  from playlist_summary[OF a] show "total_videos (r_playlist_info s) = 0"
    by (auto simp: metadata_count_zero)
  from playlist_summary[OF a]
  show "\<exists>found'. extract_playlist_urls (browse e playlist_url) (max_videos cfg)
                   = Inr (r_playlist_info s, found') \<and>
                 0 < length found' \<and> r_total_videos s = length found' \<and>
                 (create_playlist_folder cfg \<longrightarrow>
                    map_option mf_total_videos
                      (json_files w' (path_join (r_playlist_folder s) (u ''playlist_info.json'')))
                    = Some (length found'))"
    by auto
next
  have "set (map entry_info_count (results (batch_init w))) \<subseteq> {Some 0}"
    by (simp add: batch_init_def)
  from batch_loop_entries[OF this, of e cfg cfg urls]
  show "set (map entry_info_count (b_results (fst (download_multiple_playlists e cfg urls w))))
     \<subseteq> {Some 0}"
    by (simp add: download_multiple_playlists_def Let_def batch_summary_of_def)
qed


lemma run_playlist_pair:
  "run_playlist e cfg playlist_url w
     = (Inr (fst (download_playlist e cfg playlist_url w)), snd (download_playlist e cfg playlist_url w))"
  by (simp add: run_playlist_def split_beta)


text \<open>The example playlist of five videos: metadata count 0, summary and metadata file count 5, one batch entry with metadata count 0.\<close>

lemma batch_five:
  "b_results (fst (download_multiple_playlists (sample_env five_elements) default_config
       [playlist_url1] (folder_world (u ''downloads'') [])))
   = [PlaylistDone playlist_url1 sample_info 4 0 1 5 (u ''downloads/Playlist_PL1'')]"
  by (simp add: download_multiple_playlists_def run_playlist_pair playlist_five_go
        batch_init_def batch_summary_of_def)

theorem playlist_info_count_zero_witness:
  "extract_playlist_urls (sample_page five_elements) None
     = Inr (sample_info, extract_videos five_elements) \<and>
   length (extract_videos five_elements) = 5 \<and>
   total_videos sample_info = 0 \<and>
   create_playlist_folder default_config \<and>
   total_videos (r_playlist_info (the (fst (download_playlist (sample_env five_elements)
      default_config playlist_url1 (folder_world (u ''downloads'') []))))) = 0 \<and>
   r_total_videos (the (fst (download_playlist (sample_env five_elements)
      default_config playlist_url1 (folder_world (u ''downloads'') [])))) = 5 \<and>
   map_option mf_total_videos
     (json_files (snd (download_playlist (sample_env five_elements) default_config playlist_url1
                         (folder_world (u ''downloads'') [])))
        (u ''downloads/Playlist_PL1/playlist_info.json'')) = Some 5 \<and>
   map entry_info_count (b_results (fst (download_multiple_playlists (sample_env five_elements)
       default_config [playlist_url1] (folder_world (u ''downloads'') [])))) = [Some 0]"
proof -
  let ?w = "folder_world (u ''downloads'') []"
  let ?X = "download_playlist (sample_env five_elements) default_config playlist_url1 ?w"
  have e: "extract_playlist_urls (sample_page five_elements) None
     = Inr (sample_info, extract_videos five_elements)"
    by (rule extract_sample[of _ 5]) (simp_all add: five_elements_def)
  have l: "length (extract_videos five_elements) = 5" by (simp add: extract_five)
  have c: "create_playlist_folder default_config" by (simp add: default_config_def)
  have hx: "?X = (Some (the (fst ?X)), snd ?X)" by (simp add: playlist_five_go prod_eq_iff)
  note t = playlist_info_count_zero[where p = "sample_page five_elements" and mv = None
      and info = sample_info and found = "extract_videos five_elements"
      and e = "sample_env five_elements" and cfg = default_config and playlist_url = playlist_url1
      and w = ?w and s = "the (fst ?X)" and w' = "snd ?X" and urls = "[playlist_url1]"]
  from t e have z: "total_videos sample_info = 0" by blast
  have z2: "total_videos (r_playlist_info (the (fst ?X))) = 0"
    using t[THEN conjunct2, THEN conjunct2, THEN conjunct1, THEN mp, OF hx] by (rule conjunct1)
  have n: "r_total_videos (the (fst ?X)) = 5" by (simp add: playlist_five_go)
  have pf: "path_join (r_playlist_folder (the (fst ?X))) (u ''playlist_info.json'')
              = u ''downloads/Playlist_PL1/playlist_info.json''"
    by (simp add: playlist_five_go) (simp add: path_join_def u_def)
  note t3 = t[THEN conjunct2, THEN conjunct2, THEN conjunct1, THEN mp, OF hx]
  from t3[THEN conjunct2] obtain found' where
    f: "extract_playlist_urls (browse (sample_env five_elements) playlist_url1) (max_videos default_config)
          = Inr (r_playlist_info (the (fst ?X)), found') \<and>
        0 < length found' \<and> r_total_videos (the (fst ?X)) = length found' \<and>
        (create_playlist_folder default_config \<longrightarrow>
           map_option mf_total_videos
             (json_files (snd ?X) (path_join (r_playlist_folder (the (fst ?X))) (u ''playlist_info.json'')))
           = Some (length found'))"
    by (rule exE)
  from f c have "map_option mf_total_videos
        (json_files (snd ?X) (path_join (r_playlist_folder (the (fst ?X))) (u ''playlist_info.json'')))
      = Some (r_total_videos (the (fst ?X)))"
    by simp
  then have j: "map_option mf_total_videos
     (json_files (snd ?X) (u ''downloads/Playlist_PL1/playlist_info.json'')) = Some 5"
    using n pf by simp
  have b: "map entry_info_count (b_results (fst (download_multiple_playlists (sample_env five_elements)
       default_config [playlist_url1] ?w))) = [Some 0]"
    using z by (simp add: batch_five)
  show ?thesis
    by (intro conjI) (fact e l z c z2 n j b)+
qed


text \<open>
  The batch loop has a branch for a playlist run that raises: it appends a failure
  entry, counts a failed playlist, and stops when \<open>continue_on_playlist_error\<close> is off.
\<close>

lemma batch_loop_raise:
  "run playlist_url (bw st) = (Inl msg, w') \<Longrightarrow>
   batch_loop run cfg (playlist_url # rest) st =
     (let st' = st\<lparr>total_playlists_failed := total_playlists_failed st + 1,
                    results := results st @ [PlaylistError playlist_url msg], bw := w'\<rparr>
      in if continue_on_playlist_error cfg then batch_loop run cfg rest st' else st')"
  by (simp add: Let_def)


text \<open>
  The run the batch calls is \<open>download_playlist\<close>, which returns \<open>None\<close> for every
  failure, and for \<open>None\<close> the batch does nothing. So no batch ever counts a failed
  playlist or holds a failure entry.
\<close>

lemma batch_never_fails:
  "failed_playlists (fst (download_multiple_playlists e cfg urls w)) = 0 \<and>
   filter (\<lambda>r. \<not> is_success r) (b_results (fst (download_multiple_playlists e cfg urls w))) = []"
proof -
  have i: "set (map entry_info_count (results (batch_init w))) \<subseteq> {Some 0}"
    by (simp add: batch_init_def)
  let ?st = "batch_loop (run_playlist e cfg) cfg urls (batch_init w)"
  from batch_loop_entries[OF i, of e cfg cfg urls]
  have a: "set (map entry_info_count (results ?st)) \<subseteq> {Some 0}"
    and b: "total_playlists_failed ?st = 0"
    by (simp_all add: batch_init_def)
  have "\<And>r. r \<in> set (results ?st) \<Longrightarrow> is_success r"
  proof -
    fix r assume "r \<in> set (results ?st)"
    with a have "entry_info_count r = Some 0" by auto
    then show "is_success r" by (cases r) simp_all
  qed
  then have "filter (\<lambda>r. \<not> is_success r) (results ?st) = []"
    by (simp add: filter_empty_conv)
  with b show ?thesis
    by (simp add: download_multiple_playlists_def Let_def batch_summary_of_def)
qed

lemma extract_no_watch: "extract_videos no_watch_element = []"
  by (simp add: extract_videos_def no_watch_element_def sample_element_def extract_video_def
      List.map_filter_simps u_def)

lemma playlist_no_watch:
  "download_playlist (sample_env no_watch_element) cfg playlist_url w = (None, w)"
  if "max_videos cfg = None"
proof -
  have e: "extract_playlist_urls (sample_page no_watch_element) None
             = Inr (sample_info, extract_videos no_watch_element)"
    by (rule extract_sample[of _ 1]) (simp_all add: no_watch_element_def)
  show ?thesis using that
    by (simp add: download_playlist_def sample_env_def e extract_no_watch)
qed

lemma playlist_broken:
  "download_playlist mixed_env cfg broken_url w = (None, w)"
  by (simp add: download_playlist_def mixed_env_def broken_page_def extract_playlist_urls_def
      sample_page_def)

lemma playlist_mixed:
  "fst (download_playlist mixed_env strict_config playlist_url1 w)
   = Some \<lparr>r_playlist_info = sample_info, r_success_count = 0, r_skipped_count = 0,
            r_fail_count = 1, r_total_videos = 1,
            r_playlist_folder = u ''downloads/Playlist_PL1'', r_sort_order = ''playlist''\<rparr>"
  if "fs w = (\<lambda>d. [])"
proof -
  have e: "extract_playlist_urls (sample_page one_bad_element) None = Inr (sample_info, extract_videos one_bad_element)"
    by (rule extract_sample[of _ 1]) (simp_all add: one_bad_element_def)
  have b: "browse mixed_env playlist_url1 = sample_page one_bad_element"
    by (simp add: mixed_env_def playlist_url1_def broken_url_def u_def)
  have m: "max_videos strict_config = None" by (simp add: strict_config_def default_config_def)
  show ?thesis using that
    by (simp add: download_playlist_def b m e extract_one_bad)
       (simp add: mixed_env_def sample_env_def strict_config_def default_config_def
          sort_videos_def assign_download_index_def prepare_folder_def sample_info_def
          mkdir_def add_entry_def summary_of_def metadata_of_def eval_defs)
qed


text \<open>
  Claim C3, on the code. A playlist whose extraction finds no video: \<open>download_playlist\<close>
  returns \<open>None\<close>, and the batch over this one URL ends with no result entry and no
  failed playlist. A URL whose page fails to load, followed by a second URL, with
  \<open>continue_on_playlist_error\<close> off: the failure is not recorded and the batch goes on
  to the second playlist.
\<close>

theorem failed_playlists_not_recorded:
  "failed_playlists (fst (download_multiple_playlists e cfg urls w)) = 0 \<and>
   filter (\<lambda>r. \<not> is_success r) (b_results (fst (download_multiple_playlists e cfg urls w))) = [] \<and>
   extract_playlist_urls (browse (sample_env no_watch_element) playlist_url1) None
     = Inr (sample_info, []) \<and>
   fst (download_playlist (sample_env no_watch_element) default_config playlist_url1
          (folder_world (u ''downloads'') [])) = None \<and>
   fst (download_multiple_playlists (sample_env no_watch_element) default_config [playlist_url1]
          (folder_world (u ''downloads'') []))
     = \<lparr>total_playlists = 1, successful_playlists = 0, failed_playlists = 0,
        total_videos_downloaded = 0, total_videos_skipped = 0, total_videos_failed = 0,
        b_results = []\<rparr> \<and>
   extract_playlist_urls (browse mixed_env broken_url) None = Inl (u ''TimeoutException'') \<and>
   fst (download_multiple_playlists mixed_env strict_config [broken_url, playlist_url1]
          (folder_world (u ''downloads'') []))
     = \<lparr>total_playlists = 2, successful_playlists = 1, failed_playlists = 0,
        total_videos_downloaded = 0, total_videos_skipped = 0, total_videos_failed = 1,
        b_results = [PlaylistDone playlist_url1 sample_info 0 0 1 1 (u ''downloads/Playlist_PL1'')]\<rparr>"
proof -
  let ?w = "folder_world (u ''downloads'') []"
  have m: "max_videos default_config = None" by (simp add: default_config_def)
  have c1: "extract_playlist_urls (browse (sample_env no_watch_element) playlist_url1) None
     = Inr (sample_info, [])"
    using extract_sample[of no_watch_element 1] extract_no_watch
    by (simp add: sample_env_def no_watch_element_def)
  have c2: "fst (download_playlist (sample_env no_watch_element) default_config playlist_url1 ?w) = None"
    by (simp add: playlist_no_watch[OF m])
  have c3: "fst (download_multiple_playlists (sample_env no_watch_element) default_config [playlist_url1] ?w)
     = \<lparr>total_playlists = 1, successful_playlists = 0, failed_playlists = 0,
        total_videos_downloaded = 0, total_videos_skipped = 0, total_videos_failed = 0,
        b_results = []\<rparr>"
    by (simp add: download_multiple_playlists_def run_playlist_def playlist_no_watch[OF m]
          batch_init_def batch_summary_of_def)
  have c4: "extract_playlist_urls (browse mixed_env broken_url) None = Inl (u ''TimeoutException'')"
    by (simp add: mixed_env_def broken_page_def extract_playlist_urls_def sample_page_def)
  have f: "fs ?w = (\<lambda>d. [])" by (simp add: folder_world_def fun_eq_iff)
  have c5: "fst (download_multiple_playlists mixed_env strict_config [broken_url, playlist_url1] ?w)
     = \<lparr>total_playlists = 2, successful_playlists = 1, failed_playlists = 0,
        total_videos_downloaded = 0, total_videos_skipped = 0, total_videos_failed = 1,
        b_results = [PlaylistDone playlist_url1 sample_info 0 0 1 1 (u ''downloads/Playlist_PL1'')]\<rparr>"
    by (simp add: download_multiple_playlists_def run_playlist_pair playlist_broken
          playlist_mixed[OF f] batch_init_def batch_summary_of_def)
  from batch_never_fails[of e cfg urls w] c1 c2 c3 c4 c5 show ?thesis by blast
qed

end
